theory Spec2Isabelle
  imports Main "HOL-Library.Monad_Syntax" "HOL-Library.List_Lexorder"
begin

section \<open>Data model\<close>

text \<open>
  A \<open>rune\<close> is Go's \<open>int32\<close> code point; no arithmetic is done on runes, so an
  unbounded \<open>int\<close> represents it exactly. Go's \<open>int\<close> fields (indices, counters and
  node identifiers) are modelled by \<open>int\<close> as well: every value the scanner computes is
  at most the length of the line plus one, so no wrap-around can occur.

  A Go string is represented by the sequence of code points it encodes. The token
  \<open>string(textRunes[s:e])\<close> is therefore the rune slice itself, and a dictionary word
  is the list \<open>[]rune(word)\<close>.
\<close>

type_synonym rune = int
type_synonym token = "rune list"

record Edge =
  S :: int
  WordCount :: int
  UnkCount :: int

datatype PrefixTreeNode = PrefixTreeNode int int rune

datatype PrefixTreePointer = PrefixTreePointer int bool

type_synonym PrefixTree = "PrefixTreeNode \<rightharpoonup> PrefixTreePointer"

record DictBuilderPointer =
  NodeID :: int
  Offset :: int
  IsFinal :: bool

text \<open>
  The \<open>Segmenter\<close> struct of \<open>main.go\<close>. A \<open>nil\<close> slice is the empty list: the only
  non-\<open>nil\<close> values \<open>path\<close> ever takes have at least one element, and both branches
  of every \<open>nil\<close> test are modelled.
\<close>

record Segmenter =
  dict :: PrefixTree
  path :: "Edge list"
  leftBoundary :: int
  startLatin :: int
  foundLatin :: bool
  startSpace :: int
  foundSpace :: bool
  bestEdge :: Edge
  foundBestEdge :: bool
  pointers :: "DictBuilderPointer list"
  length' :: int

definition zeroEdge :: Edge where
  "zeroEdge = \<lparr>S = 0, WordCount = 0, UnkCount = 0\<rparr>"

definition zeroPointer :: DictBuilderPointer where
  "zeroPointer = \<lparr>NodeID = 0, Offset = 0, IsFinal = False\<rparr>"

definition newSegmenter :: "PrefixTree \<Rightarrow> Segmenter" where
  "newSegmenter d =
     \<lparr>dict = d, path = [], leftBoundary = 0, startLatin = 0, foundLatin = False,
      startSpace = 0, foundSpace = False, bestEdge = zeroEdge, foundBestEdge = False,
      pointers = [], length' = 0\<rparr>"

section \<open>Codepoint classifier\<close>

definition IsSpace :: "rune \<Rightarrow> bool" where
  "IsSpace ch \<longleftrightarrow>
     ch = 32 \<or> ch = 10 \<or> ch = 9 \<or> ch = 34 \<or> ch = 40 \<or> ch = 41 \<or> ch = 8220 \<or> ch = 8221"

definition IsLatin :: "rune \<Rightarrow> bool" where
  "IsLatin ch \<longleftrightarrow> (ch \<ge> 65 \<and> ch \<le> 90) \<or> (ch \<ge> 97 \<and> ch \<le> 122)"

section \<open>Prefix tree construction\<close>

text \<open>
  The inner loop of \<open>MakePrefixTree\<close>: word number \<open>i\<close> with \<open>n = len(runes)\<close>,
  position \<open>j\<close>, the remaining runes, the current \<open>rowNo\<close> and the table.
\<close>

fun insertRunes :: "int \<Rightarrow> int \<Rightarrow> int \<Rightarrow> rune list \<Rightarrow> int \<Rightarrow> PrefixTree \<Rightarrow> PrefixTree" where
  "insertRunes i n j [] rowNo tab = tab"
| "insertRunes i n j (ch # rest) rowNo tab =
     (let isFinal = (j + 1 = n);
          node = PrefixTreeNode rowNo j ch
      in case tab node of
           None \<Rightarrow> insertRunes i n (j + 1) rest i (tab(node \<mapsto> PrefixTreePointer i isFinal))
         | Some (PrefixTreePointer childID _) \<Rightarrow> insertRunes i n (j + 1) rest childID tab)"

fun insertWords :: "int \<Rightarrow> rune list list \<Rightarrow> PrefixTree \<Rightarrow> PrefixTree" where
  "insertWords i [] tab = tab"
| "insertWords i (word # rest) tab =
     insertWords (i + 1) rest (insertRunes i (int (length word)) 0 word 0 tab)"

text \<open>
  \<open>sort.Strings\<close> orders strings bytewise, which on UTF-8 is the lexicographic order
  of the code point sequences; equal strings are indistinguishable, so the sorted
  list is unique and \<open>sort\<close> computes it.
\<close>

definition MakePrefixTree :: "rune list list \<Rightarrow> PrefixTree" where
  "MakePrefixTree wordsWithPayload = insertWords 0 (sort wordsWithPayload) Map.empty"

section \<open>Building the edge array\<close>

text \<open>Indexing a slice panics outside \<open>0 \<le> k < len\<close>; \<open>None\<close> is the panic.\<close>

definition rd :: "'a list \<Rightarrow> int \<Rightarrow> 'a option" where
  "rd xs k = (if 0 \<le> k \<and> k < int (length xs) then Some (xs ! nat k) else None)"

definition wr :: "'a list \<Rightarrow> int \<Rightarrow> 'a \<Rightarrow> 'a list option" where
  "wr xs k v = (if 0 \<le> k \<and> k < int (length xs) then Some (xs[nat k := v]) else None)"

text \<open>\<open>for i := 0; i < n; i++ { p = append(p, Edge{}) }\<close>\<close>

fun appendZero :: "nat \<Rightarrow> Edge list \<Rightarrow> Edge list" where
  "appendZero 0 p = p"
| "appendZero (Suc n) p = appendZero n (p @ [zeroEdge])"

text \<open>The reset block at the start of \<open>BuildPath\<close>.\<close>

definition resetSegmenter :: "rune list \<Rightarrow> Segmenter \<Rightarrow> Segmenter" where
  "resetSegmenter line sm0 =
     (let sm = sm0\<lparr>length' := int (length line)\<rparr>;
          sm = (if path sm = [] then sm\<lparr>path := replicate (nat (length' sm + 1)) zeroEdge\<rparr>
                else sm\<lparr>path := appendZero (nat (length' sm + 1)) (take 0 (path sm))\<rparr>);
          sm = sm\<lparr>leftBoundary := 0, startLatin := 0, foundLatin := False, startSpace := 0\<rparr>
      in if pointers sm \<noteq> [] then sm\<lparr>pointers := take 0 (pointers sm)\<rparr> else sm)"

text \<open>
  \<open>source := path[start]\<close> followed by the edge \<open>{start, source.WordCount + 1,
  source.UnkCount}\<close>: the edge of a Latin run, a space run or a dictionary word.
\<close>

definition edgeFrom :: "Edge list \<Rightarrow> int \<Rightarrow> Edge option" where
  "edgeFrom p start =
     do { source \<leftarrow> rd p start;
          Some \<lparr>S = start, WordCount = WordCount source + 1, UnkCount = UnkCount source\<rparr> }"

text \<open>\<open>if sm.foundSpace { ... sm.path[i] = Edge{...} ... }\<close>\<close>

definition flushSpace :: "int \<Rightarrow> Segmenter \<Rightarrow> Segmenter option" where
  "flushSpace i sm =
     (if foundSpace sm then
        do { e \<leftarrow> edgeFrom (path sm) (startSpace sm);
             p \<leftarrow> wr (path sm) i e;
             Some (sm\<lparr>path := p, foundSpace := False, leftBoundary := i\<rparr>) }
      else Some sm)"

definition flushLatin :: "int \<Rightarrow> Segmenter \<Rightarrow> Segmenter option" where
  "flushLatin i sm =
     (if foundLatin sm then
        do { e \<leftarrow> edgeFrom (path sm) (startLatin sm);
             p \<leftarrow> wr (path sm) i e;
             Some (sm\<lparr>path := p, foundLatin := False, leftBoundary := i\<rparr>) }
      else Some sm)"

definition latinBranch :: "int \<Rightarrow> Segmenter \<Rightarrow> Segmenter option" where
  "latinBranch i sm0 =
     do { sm \<leftarrow> flushSpace i sm0;
          let sm = (if \<not> foundLatin sm then sm\<lparr>startLatin := i, foundLatin := True\<rparr> else sm);
          if i = length' sm - 1 then
            do { e \<leftarrow> edgeFrom (path sm) (startLatin sm);
                 Some (sm\<lparr>bestEdge := e, foundBestEdge := True, foundLatin := False\<rparr>) }
          else Some sm }"

definition spaceBranch :: "int \<Rightarrow> Segmenter \<Rightarrow> Segmenter option" where
  "spaceBranch i sm0 =
     do { sm \<leftarrow> flushLatin i sm0;
          let sm = (if \<not> foundSpace sm then sm\<lparr>startSpace := i, foundSpace := True\<rparr> else sm);
          if i = length' sm - 1 then
            do { e \<leftarrow> edgeFrom (path sm) (startSpace sm);
                 Some (sm\<lparr>bestEdge := e, foundBestEdge := True, foundSpace := False\<rparr>) }
          else Some sm }"

text \<open>
  The in-place compaction of \<open>sm.pointers\<close>: the loop runs over the indices of the
  slice as it was when the loop started, reads cell \<open>j\<close> and writes cell
  \<open>newIndex \<le> j\<close>; the slice is then cut to \<open>newIndex\<close>.
\<close>

definition movePointer :: "PrefixTree \<Rightarrow> rune \<Rightarrow> DictBuilderPointer \<Rightarrow> DictBuilderPointer option" where
  "movePointer d ch p =
     (case d (PrefixTreeNode (NodeID p) (Offset p) ch) of
        None \<Rightarrow> None
      | Some (PrefixTreePointer childID isFinal) \<Rightarrow>
          Some (p\<lparr>NodeID := childID, IsFinal := isFinal, Offset := Offset p + 1\<rparr>))"

definition compactStep ::
  "PrefixTree \<Rightarrow> rune \<Rightarrow> nat \<Rightarrow> DictBuilderPointer list \<times> nat \<Rightarrow> DictBuilderPointer list \<times> nat" where
  "compactStep d ch j st =
     (case st of (ps, newIndex) \<Rightarrow>
        (case movePointer d ch (ps ! j) of
           None \<Rightarrow> (ps, newIndex)
         | Some p \<Rightarrow> (ps[newIndex := p], newIndex + 1)))"

definition advancePointers :: "PrefixTree \<Rightarrow> rune \<Rightarrow> DictBuilderPointer list \<Rightarrow> DictBuilderPointer list" where
  "advancePointers d ch ps =
     (case fold (compactStep d ch) [0..<length ps] (ps, 0) of
        (ps', newIndex) \<Rightarrow> take newIndex ps')"

text \<open>\<open>for _, pointer := range sm.pointers { if pointer.IsFinal { ... } }\<close>\<close>

fun dictEdges :: "int \<Rightarrow> DictBuilderPointer list \<Rightarrow> Segmenter \<Rightarrow> Segmenter option" where
  "dictEdges i [] sm = Some sm"
| "dictEdges i (pointer # rest) sm =
     (if IsFinal pointer then
        do { edge \<leftarrow> edgeFrom (path sm) (1 + i - Offset pointer);
             if \<not> foundBestEdge sm then
               dictEdges i rest (sm\<lparr>bestEdge := edge, foundBestEdge := True\<rparr>)
             else if UnkCount edge < UnkCount (bestEdge sm) \<or>
                     (UnkCount edge = UnkCount (bestEdge sm) \<and>
                      WordCount edge \<le> WordCount (bestEdge sm)) then
               dictEdges i rest (sm\<lparr>bestEdge := edge, foundBestEdge := True\<rparr>)
             else dictEdges i rest sm }
      else dictEdges i rest sm)"

text \<open>
  The first half of the branch for a rune that is neither Latin nor space: the two
  flushes, \<open>append(sm.pointers, DictBuilderPointer{})\<close> and the compaction.
\<close>

definition advanceText :: "int \<Rightarrow> rune \<Rightarrow> Segmenter \<Rightarrow> Segmenter option" where
  "advanceText i ch sm0 =
     do { sm \<leftarrow> flushSpace i sm0;
          sm \<leftarrow> flushLatin i sm;
          let sm = sm\<lparr>pointers := pointers sm @ [zeroPointer]\<rparr>;
          Some (sm\<lparr>pointers := advancePointers (dict sm) ch (pointers sm)\<rparr>) }"

definition textBranch :: "int \<Rightarrow> rune \<Rightarrow> Segmenter \<Rightarrow> Segmenter option" where
  "textBranch i ch sm0 =
     do { sm \<leftarrow> advanceText i ch sm0;
          dictEdges i (pointers sm) sm }"

text \<open>The unknown fallback, the move of \<open>leftBoundary\<close> and \<open>sm.path[i+1] = sm.bestEdge\<close>.\<close>

definition writeBest :: "int \<Rightarrow> Segmenter \<Rightarrow> Segmenter option" where
  "writeBest i sm0 =
     do { sm \<leftarrow> (if \<not> foundBestEdge sm0 then
                  do { source \<leftarrow> rd (path sm0) (leftBoundary sm0);
                       Some (sm0\<lparr>bestEdge := \<lparr>S = leftBoundary sm0,
                                               WordCount = WordCount source + 1,
                                               UnkCount = UnkCount source + 1\<rparr>,
                                  foundBestEdge := True\<rparr>) }
                else Some (sm0\<lparr>leftBoundary := i + 1\<rparr>));
          p \<leftarrow> wr (path sm) (i + 1) (bestEdge sm);
          Some (sm\<lparr>path := p\<rparr>) }"

text \<open>The first four statements of the loop body: \<open>sm.bestEdge\<close> is cleared.\<close>

definition beginRune :: "Segmenter \<Rightarrow> Segmenter" where
  "beginRune sm =
     sm\<lparr>bestEdge := \<lparr>S = 0, WordCount = 0, UnkCount = 0\<rparr>, foundBestEdge := False\<rparr>"

text \<open>One iteration of \<open>for i, ch := range line\<close>.\<close>

definition scanRune :: "int \<Rightarrow> rune \<Rightarrow> Segmenter \<Rightarrow> Segmenter option" where
  "scanRune i ch sm0 =
     do { let sm = beginRune sm0;
          sm \<leftarrow> (if IsLatin ch then latinBranch i sm
                 else if IsSpace ch then spaceBranch i sm
                 else textBranch i ch sm);
          writeBest i sm }"

fun scanLine :: "int \<Rightarrow> rune list \<Rightarrow> Segmenter \<Rightarrow> Segmenter option" where
  "scanLine i [] sm = Some sm"
| "scanLine i (ch # rest) sm =
     do { sm' \<leftarrow> scanRune i ch sm; scanLine (i + 1) rest sm' }"

definition BuildPath :: "rune list \<Rightarrow> Segmenter \<Rightarrow> Segmenter option" where
  "BuildPath line sm = scanLine 0 line (resetSegmenter line sm)"

section \<open>Path reconstruction\<close>

text \<open>
  \<open>textRunes[s:e]\<close> panics unless \<open>0 \<le> s \<le> e \<le> cap(textRunes)\<close>. The loop starts
  with \<open>e = len(textRunes)\<close> and \<open>e\<close> never grows, so the bound on \<open>e\<close> is the length.
\<close>

definition sliceRunes :: "rune list \<Rightarrow> int \<Rightarrow> int \<Rightarrow> token option" where
  "sliceRunes textRunes s e =
     (if 0 \<le> s \<and> s \<le> e \<and> e \<le> int (length textRunes)
      then Some (take (nat e - nat s) (drop (nat s) textRunes)) else None)"

text \<open>
  The loop \<open>for e > 0\<close> of \<open>Segment\<close>. The counter \<open>i\<close> falls by one in each round and
  \<open>tokens[i]\<close> panics once it is negative, so the loop ends after at most \<open>i + 1\<close>
  rounds.
\<close>

function walkBack :: "Edge list \<Rightarrow> rune list \<Rightarrow> int \<Rightarrow> int \<Rightarrow> token list \<Rightarrow> (int \<times> token list) option" where
  "walkBack p textRunes e i tokens =
     (if e > 0 then
        (case rd p e of
           None \<Rightarrow> None
         | Some ed \<Rightarrow>
             (case sliceRunes textRunes (S ed) e of
                None \<Rightarrow> None
              | Some t \<Rightarrow>
                  (case wr tokens i t of
                     None \<Rightarrow> None
                   | Some tokens' \<Rightarrow> walkBack p textRunes (S ed) (i - 1) tokens')))
      else Some (i, tokens))"
  by pat_completeness auto
termination
  by (relation "measure (\<lambda>(p, textRunes, e, i, tokens). nat (i + 1))")
     (auto simp: wr_def split: if_splits)

declare walkBack.simps [simp del]

definition Segment :: "rune list \<Rightarrow> Segmenter \<Rightarrow> (token list \<times> Segmenter) option" where
  "Segment textRunes sm0 =
     do { sm \<leftarrow> BuildPath textRunes sm0;
          let l = int (length (path sm));
          let tokens = replicate (nat l) [];
          let e = l - 1;
          _ \<leftarrow> rd (path sm) e;
          (i, tokens) \<leftarrow> walkBack (path sm) textRunes e e tokens;
          Some (drop (nat (i + 1)) tokens, sm) }"

text \<open>
  The interface \<open>segment(line, trie)\<close>: \<open>Segment\<close> on a \<open>Segmenter\<close> as
  \<open>InitSegmentWorker\<close> constructs it, keeping the tokens.
\<close>

definition segment :: "rune list \<Rightarrow> PrefixTree \<Rightarrow> token list option" where
  "segment line trie = map_option fst (Segment line (newSegmenter trie))"

text \<open>
  A worker of \<open>main\<close> takes one \<open>Segmenter\<close> from the pool, calls \<open>sm.Segment\<close> and
  puts it back, so a \<open>Segmenter\<close> serves a sequence of lines one after the other:
  \<open>SegmentReused\<close> threads one \<open>Segmenter\<close> through the calls, \<open>SegmentFresh\<close>
  constructs a new one for every line.
\<close>

fun SegmentReused :: "rune list list \<Rightarrow> Segmenter \<Rightarrow> (token list list \<times> Segmenter) option" where
  "SegmentReused [] sm = Some ([], sm)"
| "SegmentReused (line # rest) sm =
     do { (tokens, sm') \<leftarrow> Segment line sm;
          (results, sm'') \<leftarrow> SegmentReused rest sm';
          Some (tokens # results, sm'') }"

fun SegmentFresh :: "rune list list \<Rightarrow> PrefixTree \<Rightarrow> token list list option" where
  "SegmentFresh [] d = Some []"
| "SegmentFresh (line # rest) d =
     do { tokens \<leftarrow> segment line d;
          results \<leftarrow> SegmentFresh rest d;
          Some (tokens # results) }"

text \<open>
  The candidate dictionary edges of position \<open>i\<close>, in the order in which the second
  loop of the text branch visits them, each with the \<open>Offset\<close> of the pointer that
  produces it: the state before iteration \<open>i\<close>, then the first half of the branch.
\<close>

definition candidatesAt :: "PrefixTree \<Rightarrow> rune list \<Rightarrow> nat \<Rightarrow> (int \<times> Edge option) list option" where
  "candidatesAt d line i =
     do { sm \<leftarrow> scanLine 0 (take i line) (resetSegmenter line (newSegmenter d));
          sma \<leftarrow> advanceText (int i) (line ! i) (beginRune sm);
          Some (map (\<lambda>p. (Offset p, edgeFrom (path sma) (1 + int i - Offset p)))
                    (filter IsFinal (pointers sma))) }"

section \<open>Invariants of the scan\<close>

text \<open>
  \<open>linked k p\<close>: every cell \<open>1..k\<close> of the edge array points strictly to the left and
  counts one word more than the cell it points to.
\<close>

definition linked :: "nat \<Rightarrow> Edge list \<Rightarrow> bool" where
  "linked k p \<longleftrightarrow>
     (\<forall>j. 1 \<le> j \<and> j \<le> k \<longrightarrow>
        0 \<le> S (p ! j) \<and> S (p ! j) < int j \<and>
        WordCount (p ! j) = WordCount (p ! nat (S (p ! j))) + 1)"

text \<open>The state before iteration \<open>i\<close> of a line of \<open>n\<close> runes.\<close>

definition scanInv :: "nat \<Rightarrow> nat \<Rightarrow> Segmenter \<Rightarrow> bool" where
  "scanInv n i sm \<longleftrightarrow>
     length' sm = int n \<and> length (path sm) = Suc n \<and> i \<le> n \<and>
     path sm ! 0 = zeroEdge \<and> linked i (path sm) \<and>
     0 \<le> leftBoundary sm \<and> leftBoundary sm \<le> int i \<and>
     (foundLatin sm \<longrightarrow> 0 \<le> startLatin sm \<and> startLatin sm < int i) \<and>
     (foundSpace sm \<longrightarrow> 0 \<le> startSpace sm \<and> startSpace sm < int i) \<and>
     (\<forall>p \<in> set (pointers sm). 1 \<le> Offset p \<and> Offset p \<le> int i)"

text \<open>The state of iteration \<open>i\<close> after its branch and before the edge is written.\<close>

definition midInv :: "nat \<Rightarrow> nat \<Rightarrow> Segmenter \<Rightarrow> bool" where
  "midInv n i sm \<longleftrightarrow>
     length' sm = int n \<and> length (path sm) = Suc n \<and> i < n \<and>
     path sm ! 0 = zeroEdge \<and> linked i (path sm) \<and>
     0 \<le> leftBoundary sm \<and> leftBoundary sm \<le> int i \<and>
     (foundLatin sm \<longrightarrow> 0 \<le> startLatin sm \<and> startLatin sm \<le> int i) \<and>
     (foundSpace sm \<longrightarrow> 0 \<le> startSpace sm \<and> startSpace sm \<le> int i) \<and>
     (\<forall>p \<in> set (pointers sm). 1 \<le> Offset p \<and> Offset p \<le> int i + 1) \<and>
     (foundBestEdge sm \<longrightarrow>
        0 \<le> S (bestEdge sm) \<and> S (bestEdge sm) \<le> int i \<and>
        WordCount (bestEdge sm) = WordCount (path sm ! nat (S (bestEdge sm))) + 1)"

text \<open>
  The state before iteration \<open>i\<close> when the trie is empty and the runes scanned so far
  are neither Latin nor space: one unknown edge from 0 in the cell last written.
\<close>

definition unkInv :: "nat \<Rightarrow> nat \<Rightarrow> Segmenter \<Rightarrow> bool" where
  "unkInv n i sm \<longleftrightarrow>
     length (path sm) = Suc n \<and> i \<le> n \<and> dict sm = Map.empty \<and> pointers sm = [] \<and>
     leftBoundary sm = 0 \<and> \<not> foundLatin sm \<and> \<not> foundSpace sm \<and>
     path sm ! 0 = zeroEdge \<and>
     (0 < i \<longrightarrow> path sm ! i = \<lparr>S = 0, WordCount = 1, UnkCount = 1\<rparr>)"

text \<open>
  The live pointers are kept oldest first: their offsets fall strictly along the list,
  and none is zero between two iterations.
\<close>

definition descending :: "DictBuilderPointer list \<Rightarrow> bool" where
  "descending ps \<longleftrightarrow>
     sorted_wrt (\<lambda>p q. Offset q < Offset p) ps \<and> list_all (\<lambda>p. 1 \<le> Offset p) ps"

text \<open>
  The order in which the scan prefers edge \<open>a\<close> to edge \<open>b\<close>: fewer unknowns, then
  fewer words, then the greater start index.
\<close>

definition preferred :: "Edge \<Rightarrow> Edge \<Rightarrow> bool" where
  "preferred a b \<longleftrightarrow>
     UnkCount a < UnkCount b \<or>
     (UnkCount a = UnkCount b \<and>
      (WordCount a < WordCount b \<or> (WordCount a = WordCount b \<and> S b \<le> S a)))"

text \<open>
  \<open>follow d p cs\<close> moves a pointer along the runes \<open>cs\<close>, one trie lookup for each,
  as the compaction does for a pointer that stays alive.
\<close>

fun follow :: "PrefixTree \<Rightarrow> DictBuilderPointer \<Rightarrow> rune list \<Rightarrow> DictBuilderPointer option" where
  "follow d p [] = Some p"
| "follow d p (c # cs) = movePointer d c p \<bind> (\<lambda>q. follow d q cs)"

text \<open>
  The table built from the words \<open>W\<close>: an entry with key \<open>(r, j, c)\<close> and child \<open>i\<close>
  was written by word \<open>i\<close> at position \<open>j\<close>; it is final iff word \<open>i\<close> ends there,
  and the node \<open>r\<close> it leaves stands for the first \<open>j\<close> runes of word \<open>i\<close>.
\<close>

definition trieInv :: "rune list list \<Rightarrow> PrefixTree \<Rightarrow> bool" where
  "trieInv W tab \<longleftrightarrow>
     (\<forall>r j c child fin.
        tab (PrefixTreeNode r j c) = Some (PrefixTreePointer child fin) \<longrightarrow>
          0 \<le> j \<and> 0 \<le> child \<and> nat child < length W \<and>
          nat j < length (W ! nat child) \<and> (W ! nat child) ! nat j = c \<and>
          (fin \<longleftrightarrow> int (length (W ! nat child)) = j + 1) \<and>
          (if j = 0 then r = 0
           else 0 \<le> r \<and> nat r < length W \<and>
                take (nat j) (W ! nat r) = take (nat j) (W ! nat child)))"

text \<open>
  While word \<open>w\<close> is inserted: after \<open>j\<close> runes, \<open>rowNo\<close> is the root or stands for
  the first \<open>j\<close> runes of \<open>w\<close>.
\<close>

definition rowInv :: "rune list list \<Rightarrow> rune list \<Rightarrow> nat \<Rightarrow> int \<Rightarrow> bool" where
  "rowInv W w j rowNo \<longleftrightarrow>
     (if j = 0 then rowNo = 0
      else 0 \<le> rowNo \<and> nat rowNo < length W \<and> take j (W ! nat rowNo) = take j w)"

text \<open>
  Every live pointer is the result of following, from the root, a non-empty sequence of
  runes that are neither Latin nor space.
\<close>

definition tracked :: "PrefixTree \<Rightarrow> DictBuilderPointer list \<Rightarrow> bool" where
  "tracked d ps \<longleftrightarrow>
     (\<forall>p \<in> set ps. \<exists>cs. cs \<noteq> [] \<and> (\<forall>c \<in> set cs. \<not> IsLatin c \<and> \<not> IsSpace c) \<and>
                         follow d zeroPointer cs = Some p)"

section \<open>Lemmas\<close>

subsection \<open>The reset block and the compaction of the pointers\<close>

lemma appendZero_replicate: "appendZero n p = p @ replicate n zeroEdge"
  by (induction n arbitrary: p) (simp_all add: replicate_app_Cons_same)

lemma resetSegmenter_eq:
  "resetSegmenter line sm =
     sm\<lparr>length' := int (length line), path := replicate (Suc (length line)) zeroEdge,
        leftBoundary := 0, startLatin := 0, foundLatin := False, startSpace := 0,
        pointers := []\<rparr>"
  by (simp add: resetSegmenter_def Let_def appendZero_replicate nat_add_distrib)

lemma compactStep_pair:
  "compactStep d ch j (ps, n) =
     (case movePointer d ch (ps ! j) of None \<Rightarrow> (ps, n) | Some p \<Rightarrow> (ps[n := p], n + 1))"
  by (simp add: compactStep_def)

lemma compact_fold:
  "k \<le> length ps \<Longrightarrow>
   \<exists>arr n. fold (compactStep d ch) [0..<k] (ps, 0) = (arr, n) \<and> n \<le> k \<and>
     length arr = length ps \<and> take n arr = List.map_filter (movePointer d ch) (take k ps) \<and>
     drop k arr = drop k ps"
proof (induction k)
  case 0
  then show ?case by (simp add: List.map_filter_simps)
next
  case (Suc k)
  then obtain arr n where f: "fold (compactStep d ch) [0..<k] (ps, 0) = (arr, n)"
    and n: "n \<le> k" and len: "length arr = length ps"
    and tk: "take n arr = List.map_filter (movePointer d ch) (take k ps)"
    and dr: "drop k arr = drop k ps"
    by auto
  from Suc.prems have klt: "k < length ps" by simp
  have arrk: "arr ! k = ps ! k"
    using dr klt len by (metis Cons_nth_drop_Suc nth_via_drop)
  have tks: "take (Suc k) ps = take k ps @ [ps ! k]"
    using klt by (simp add: take_Suc_conv_app_nth)
  have "drop 1 (drop k arr) = drop 1 (drop k ps)"
    using dr by simp
  then have ds: "drop (Suc k) arr = drop (Suc k) ps"
    by simp
  show ?case
  proof (cases "movePointer d ch (ps ! k)")
    case None
    then show ?thesis
      using f n len tk ds arrk tks klt
      by (simp add: compactStep_pair List.map_filter_def)
  next
    case (Some q)
    have "take (Suc n) (arr[n := q]) = take n arr @ [q]"
      using n klt len by (simp add: take_Suc_conv_app_nth)
    moreover have "drop (Suc k) (arr[n := q]) = drop (Suc k) ps"
      using n ds by simp
    ultimately show ?thesis
      using Some f n len tk arrk tks klt
      by (simp add: compactStep_pair List.map_filter_def)
  qed
qed

lemma advancePointers_eq:
  "advancePointers d ch ps = List.map_filter (movePointer d ch) ps"
  using compact_fold[of "length ps" ps d ch]
  by (auto simp: advancePointers_def)



subsection \<open>The invariant of the scan loop\<close>

lemma linked_flush:
  assumes "linked i p" "0 \<le> st" "st < int i" "i < length p"
  shows "linked i (p[i := \<lparr>S = st, WordCount = WordCount (p ! nat st) + 1, UnkCount = u\<rparr>])"
  unfolding linked_def
proof (intro allI impI)
  fix j assume j: "1 \<le> j \<and> j \<le> i"
  let ?e = "\<lparr>S = st, WordCount = WordCount (p ! nat st) + 1, UnkCount = u\<rparr>"
  let ?q = "p[i := ?e]"
  show "0 \<le> S (?q ! j) \<and> S (?q ! j) < int j \<and>
        WordCount (?q ! j) = WordCount (?q ! nat (S (?q ! j))) + 1"
  proof (cases "j = i")
    case True
    have "nat st \<noteq> i" using assms(2,3) by linarith
    then show ?thesis using True assms by simp
  next
    case False
    from assms(1) j have h: "0 \<le> S (p ! j)" "S (p ! j) < int j"
      "WordCount (p ! j) = WordCount (p ! nat (S (p ! j))) + 1"
      unfolding linked_def by blast+
    have "nat (S (p ! j)) \<noteq> i" using h(1,2) j by linarith
    then show ?thesis using False h by simp
  qed
qed

lemma linked_extend:
  assumes "linked i p" "0 \<le> S e" "S e \<le> int i" "WordCount e = WordCount (p ! nat (S e)) + 1"
    "Suc i < length p"
  shows "linked (Suc i) (p[Suc i := e])"
  unfolding linked_def
proof (intro allI impI)
  fix j assume j: "1 \<le> j \<and> j \<le> Suc i"
  let ?q = "p[Suc i := e]"
  show "0 \<le> S (?q ! j) \<and> S (?q ! j) < int j \<and>
        WordCount (?q ! j) = WordCount (?q ! nat (S (?q ! j))) + 1"
  proof (cases "j = Suc i")
    case True
    have "nat (S e) \<noteq> Suc i" using assms(2,3) by linarith
    then show ?thesis using True assms by simp
  next
    case False
    with j have ji: "j \<le> i" by simp
    from assms(1) j ji have h: "0 \<le> S (p ! j)" "S (p ! j) < int j"
      "WordCount (p ! j) = WordCount (p ! nat (S (p ! j))) + 1"
      unfolding linked_def by blast+
    have "nat (S (p ! j)) \<noteq> Suc i" using h(1,2) ji by linarith
    then show ?thesis using False h by simp
  qed
qed




lemma edgeFrom_Some:
  "0 \<le> st \<Longrightarrow> st < int (length p) \<Longrightarrow>
   edgeFrom p st = Some \<lparr>S = st, WordCount = WordCount (p ! nat st) + 1, UnkCount = UnkCount (p ! nat st)\<rparr>"
  by (simp add: edgeFrom_def rd_def)

lemma flushSpace_inv:
  assumes "scanInv n i sm" "i < n"
  shows "\<exists>sm1. flushSpace (int i) sm = Some sm1 \<and> scanInv n i sm1 \<and> \<not> foundSpace sm1 \<and>
           foundLatin sm1 = foundLatin sm \<and> startLatin sm1 = startLatin sm \<and>
           pointers sm1 = pointers sm \<and> dict sm1 = dict sm \<and>
           bestEdge sm1 = bestEdge sm \<and> foundBestEdge sm1 = foundBestEdge sm"
proof (cases "foundSpace sm")
  case False
  then show ?thesis using assms by (simp add: flushSpace_def)
next
  case True
  with assms have st: "0 \<le> startSpace sm" "startSpace sm < int i" and len: "length (path sm) = Suc n"
    and lk: "linked i (path sm)" and z: "path sm ! 0 = zeroEdge"
    by (simp_all add: scanInv_def)
  let ?e = "\<lparr>S = startSpace sm,
      WordCount = WordCount (path sm ! nat (startSpace sm)) + 1,
      UnkCount = UnkCount (path sm ! nat (startSpace sm))\<rparr>"
  have e: "edgeFrom (path sm) (startSpace sm) = Some ?e"
    using st len assms(2) by (intro edgeFrom_Some) simp_all
  have lk': "linked i ((path sm)[i := ?e])"
    using lk st len assms(2) by (intro linked_flush) simp_all
  have i0: "0 < i" using st by simp
  have fl: "flushSpace (int i) sm =
      Some (sm\<lparr>path := (path sm)[i := ?e], foundSpace := False, leftBoundary := int i\<rparr>)"
    using True e len assms(2) by (simp add: flushSpace_def wr_def)
  show ?thesis
    unfolding fl using lk' i0 z assms(1)
    by (simp add: scanInv_def)
qed

lemma flushLatin_inv:
  assumes "scanInv n i sm" "i < n"
  shows "\<exists>sm1. flushLatin (int i) sm = Some sm1 \<and> scanInv n i sm1 \<and> \<not> foundLatin sm1 \<and>
           foundSpace sm1 = foundSpace sm \<and> startSpace sm1 = startSpace sm \<and>
           pointers sm1 = pointers sm \<and> dict sm1 = dict sm \<and>
           bestEdge sm1 = bestEdge sm \<and> foundBestEdge sm1 = foundBestEdge sm"
proof (cases "foundLatin sm")
  case False
  then show ?thesis using assms by (simp add: flushLatin_def)
next
  case True
  with assms have st: "0 \<le> startLatin sm" "startLatin sm < int i" and len: "length (path sm) = Suc n"
    and lk: "linked i (path sm)" and z: "path sm ! 0 = zeroEdge"
    by (simp_all add: scanInv_def)
  let ?e = "\<lparr>S = startLatin sm,
      WordCount = WordCount (path sm ! nat (startLatin sm)) + 1,
      UnkCount = UnkCount (path sm ! nat (startLatin sm))\<rparr>"
  have e: "edgeFrom (path sm) (startLatin sm) = Some ?e"
    using st len assms(2) by (intro edgeFrom_Some) simp_all
  have lk': "linked i ((path sm)[i := ?e])"
    using lk st len assms(2) by (intro linked_flush) simp_all
  have i0: "0 < i" using st by simp
  have fl: "flushLatin (int i) sm =
      Some (sm\<lparr>path := (path sm)[i := ?e], foundLatin := False, leftBoundary := int i\<rparr>)"
    using True e len assms(2) by (simp add: flushLatin_def wr_def)
  show ?thesis
    unfolding fl using lk' i0 z assms(1)
    by (simp add: scanInv_def)
qed




lemma latinBranch_mid:
  assumes "scanInv n i sm" "i < n" "\<not> foundBestEdge sm"
  shows "\<exists>sm1. latinBranch (int i) sm = Some sm1 \<and> midInv n i sm1 \<and>
           pointers sm1 = pointers sm \<and> dict sm1 = dict sm \<and>
           \<not> foundSpace sm1 \<and> (Suc i = n \<longrightarrow> \<not> foundLatin sm1)"
proof -
  from flushSpace_inv[OF assms(1,2)] obtain sm0 where
    fl: "flushSpace (int i) sm = Some sm0" and inv: "scanInv n i sm0" and nf: "\<not> foundSpace sm0"
    and eqs: "pointers sm0 = pointers sm" "dict sm0 = dict sm" "foundBestEdge sm0 = foundBestEdge sm"
    by blast
  define sm2 where "sm2 = (if \<not> foundLatin sm0 then sm0\<lparr>startLatin := int i, foundLatin := True\<rparr> else sm0)"
  have st: "0 \<le> startLatin sm2" "startLatin sm2 \<le> int i" "foundLatin sm2"
    using inv by (auto simp: sm2_def scanInv_def)
  have same: "path sm2 = path sm0" "length' sm2 = length' sm0" "pointers sm2 = pointers sm0"
    "dict sm2 = dict sm0" "foundBestEdge sm2 = foundBestEdge sm0" "leftBoundary sm2 = leftBoundary sm0"
    "foundSpace sm2 = foundSpace sm0" "startSpace sm2 = startSpace sm0"
    by (simp_all add: sm2_def)
  have len: "length (path sm2) = Suc n" "length' sm2 = int n"
    using inv by (simp_all add: same scanInv_def)
  have lb: "latinBranch (int i) sm =
      (if int i = length' sm2 - 1 then
         do { e \<leftarrow> edgeFrom (path sm2) (startLatin sm2);
              Some (sm2\<lparr>bestEdge := e, foundBestEdge := True, foundLatin := False\<rparr>) }
       else Some sm2)"
    by (simp add: latinBranch_def fl sm2_def)
  show ?thesis
  proof (cases "int i = length' sm2 - 1")
    case True
    have e: "edgeFrom (path sm2) (startLatin sm2) = Some \<lparr>S = startLatin sm2,
        WordCount = WordCount (path sm2 ! nat (startLatin sm2)) + 1,
        UnkCount = UnkCount (path sm2 ! nat (startLatin sm2))\<rparr>"
      using st len assms(2) by (intro edgeFrom_Some) simp_all
    show ?thesis
      unfolding lb using True e st inv assms(2,3) eqs nf
      by (auto simp: midInv_def scanInv_def same)
  next
    case False
    show ?thesis
      unfolding lb using False st inv assms(2,3) eqs nf
      by (auto simp: midInv_def scanInv_def same)
  qed
qed



lemma spaceBranch_mid:
  assumes "scanInv n i sm" "i < n" "\<not> foundBestEdge sm"
  shows "\<exists>sm1. spaceBranch (int i) sm = Some sm1 \<and> midInv n i sm1 \<and>
           pointers sm1 = pointers sm \<and> dict sm1 = dict sm \<and>
           \<not> foundLatin sm1 \<and> (Suc i = n \<longrightarrow> \<not> foundSpace sm1)"
proof -
  from flushLatin_inv[OF assms(1,2)] obtain sm0 where
    fl: "flushLatin (int i) sm = Some sm0" and inv: "scanInv n i sm0" and nf: "\<not> foundLatin sm0"
    and eqs: "pointers sm0 = pointers sm" "dict sm0 = dict sm" "foundBestEdge sm0 = foundBestEdge sm"
    by blast
  define sm2 where "sm2 = (if \<not> foundSpace sm0 then sm0\<lparr>startSpace := int i, foundSpace := True\<rparr> else sm0)"
  have st: "0 \<le> startSpace sm2" "startSpace sm2 \<le> int i" "foundSpace sm2"
    using inv by (auto simp: sm2_def scanInv_def)
  have same: "path sm2 = path sm0" "length' sm2 = length' sm0" "pointers sm2 = pointers sm0"
    "dict sm2 = dict sm0" "foundBestEdge sm2 = foundBestEdge sm0" "leftBoundary sm2 = leftBoundary sm0"
    "foundLatin sm2 = foundLatin sm0" "startLatin sm2 = startLatin sm0"
    by (simp_all add: sm2_def)
  have len: "length (path sm2) = Suc n" "length' sm2 = int n"
    using inv by (simp_all add: same scanInv_def)
  have lb: "spaceBranch (int i) sm =
      (if int i = length' sm2 - 1 then
         do { e \<leftarrow> edgeFrom (path sm2) (startSpace sm2);
              Some (sm2\<lparr>bestEdge := e, foundBestEdge := True, foundSpace := False\<rparr>) }
       else Some sm2)"
    by (simp add: spaceBranch_def fl sm2_def)
  show ?thesis
  proof (cases "int i = length' sm2 - 1")
    case True
    have e: "edgeFrom (path sm2) (startSpace sm2) = Some \<lparr>S = startSpace sm2,
        WordCount = WordCount (path sm2 ! nat (startSpace sm2)) + 1,
        UnkCount = UnkCount (path sm2 ! nat (startSpace sm2))\<rparr>"
      using st len assms(2) by (intro edgeFrom_Some) simp_all
    show ?thesis
      unfolding lb using True e st inv assms(2,3) eqs nf
      by (auto simp: midInv_def scanInv_def same)
  next
    case False
    show ?thesis
      unfolding lb using False st inv assms(2,3) eqs nf
      by (auto simp: midInv_def scanInv_def same)
  qed
qed






lemma midInv_best:
  assumes "midInv n i sm" "0 \<le> st" "st \<le> int i"
  shows "midInv n i (sm\<lparr>bestEdge := \<lparr>S = st, WordCount = WordCount (path sm ! nat st) + 1,
                                      UnkCount = u\<rparr>, foundBestEdge := True\<rparr>)"
  using assms by (simp add: midInv_def)

lemma dictEdges_mid:
  assumes "midInv n i sm" "\<forall>p \<in> set ps. 1 \<le> Offset p \<and> Offset p \<le> int i + 1"
  shows "\<exists>sm1. dictEdges (int i) ps sm = Some sm1 \<and> midInv n i sm1 \<and>
           pointers sm1 = pointers sm \<and> dict sm1 = dict sm \<and> path sm1 = path sm \<and>
           foundSpace sm1 = foundSpace sm \<and> foundLatin sm1 = foundLatin sm"
  using assms
proof (induction ps arbitrary: sm)
  case Nil
  then show ?case by simp
next
  case (Cons p ps)
  show ?case
  proof (cases "IsFinal p")
    case False
    then show ?thesis using Cons by simp
  next
    case True
    let ?s = "1 + int i - Offset p"
    let ?e = "\<lparr>S = ?s, WordCount = WordCount (path sm ! nat ?s) + 1,
               UnkCount = UnkCount (path sm ! nat ?s)\<rparr>"
    let ?sm = "sm\<lparr>bestEdge := ?e, foundBestEdge := True\<rparr>"
    have s: "0 \<le> ?s" "?s \<le> int i" using Cons.prems(2) by simp_all
    have len: "length (path sm) = Suc n" "i < n" using Cons.prems(1) by (simp_all add: midInv_def)
    have e: "edgeFrom (path sm) ?s = Some ?e"
      using s len by (intro edgeFrom_Some) simp_all
    have mid: "midInv n i ?sm"
      using Cons.prems(1) s by (rule midInv_best)
    have ps: "\<forall>p \<in> set ps. 1 \<le> Offset p \<and> Offset p \<le> int i + 1"
      using Cons.prems(2) by simp
    from Cons.IH[OF mid ps] Cons.IH[OF Cons.prems(1) ps]
    show ?thesis
      using True e by (simp del: One_nat_def)
  qed
qed




lemma movePointer_Offset: "movePointer d ch p = Some q \<Longrightarrow> Offset q = Offset p + 1"
  by (auto simp: movePointer_def split: option.splits PrefixTreePointer.splits)

lemma set_map_filter: "q \<in> set (List.map_filter f xs) \<longleftrightarrow> (\<exists>x \<in> set xs. f x = Some q)"
  by (induction xs) (auto simp: List.map_filter_simps split: option.splits)

lemma advancePointers_Offset:
  assumes "\<forall>p \<in> set ps. 0 \<le> Offset p \<and> Offset p \<le> k"
  shows "\<forall>q \<in> set (advancePointers d ch ps). 1 \<le> Offset q \<and> Offset q \<le> k + 1"
  using assms by (auto simp: advancePointers_eq set_map_filter dest!: movePointer_Offset)

lemma scanInv_midInv:
  assumes "scanInv n i sm" "i < n" "\<not> foundBestEdge sm"
    "\<forall>p \<in> set ps. 1 \<le> Offset p \<and> Offset p \<le> int i + 1"
  shows "midInv n i (sm\<lparr>pointers := ps\<rparr>)"
  using assms by (auto simp: scanInv_def midInv_def)

lemma textBranch_mid:
  assumes "scanInv n i sm" "i < n" "\<not> foundBestEdge sm"
  shows "\<exists>sm1. textBranch (int i) ch sm = Some sm1 \<and> midInv n i sm1 \<and> dict sm1 = dict sm \<and>
           pointers sm1 = advancePointers (dict sm) ch (pointers sm @ [zeroPointer]) \<and>
           \<not> foundSpace sm1 \<and> \<not> foundLatin sm1"
proof -
  from flushSpace_inv[OF assms(1,2)] obtain sm0 where
    fl0: "flushSpace (int i) sm = Some sm0" and inv0: "scanInv n i sm0"
    and nf0: "\<not> foundSpace sm0"
    and eq0: "pointers sm0 = pointers sm" "dict sm0 = dict sm" "foundBestEdge sm0 = foundBestEdge sm"
    by blast
  from flushLatin_inv[OF inv0 assms(2)] obtain sm1 where
    fl1: "flushLatin (int i) sm0 = Some sm1" and inv1: "scanInv n i sm1"
    and nf1: "\<not> foundLatin sm1" "foundSpace sm1 = foundSpace sm0"
    and eq1: "pointers sm1 = pointers sm0" "dict sm1 = dict sm0" "foundBestEdge sm1 = foundBestEdge sm0"
    by blast
  let ?ps = "advancePointers (dict sm) ch (pointers sm @ [zeroPointer])"
  let ?sm = "sm1\<lparr>pointers := ?ps\<rparr>"
  have "\<forall>p \<in> set (pointers sm @ [zeroPointer]). 0 \<le> Offset p \<and> Offset p \<le> int i"
    using assms(1) by (auto simp: scanInv_def zeroPointer_def)
  then have ps: "\<forall>q \<in> set ?ps. 1 \<le> Offset q \<and> Offset q \<le> int i + 1"
    by (rule advancePointers_Offset)
  have mid: "midInv n i ?sm"
    using inv1 assms(2) _ ps by (rule scanInv_midInv) (simp add: eq0 eq1 assms(3))
  from dictEdges_mid[OF mid ps] obtain sm2 where
    de: "dictEdges (int i) ?ps ?sm = Some sm2" and mid2: "midInv n i sm2"
    and eq2: "pointers sm2 = pointers ?sm" "dict sm2 = dict ?sm"
      "foundSpace sm2 = foundSpace ?sm" "foundLatin sm2 = foundLatin ?sm"
    by blast
  have "advanceText (int i) ch sm = Some ?sm"
    by (simp add: advanceText_def fl0 fl1 eq0 eq1)
  then have "textBranch (int i) ch sm = Some sm2"
    by (simp add: textBranch_def de)
  then show ?thesis using mid2 eq2 nf0 nf1 by (simp add: eq0 eq1)
qed

lemma writeBest_inv:
  assumes "midInv n i sm"
  shows "\<exists>sm'. writeBest (int i) sm = Some sm' \<and> scanInv n (Suc i) sm' \<and>
           pointers sm' = pointers sm \<and> dict sm' = dict sm \<and>
           foundLatin sm' = foundLatin sm \<and> foundSpace sm' = foundSpace sm"
proof -
  have len: "length (path sm) = Suc n" "i < n" and lb: "0 \<le> leftBoundary sm" "leftBoundary sm \<le> int i"
    and lk: "linked i (path sm)"
    using assms by (simp_all add: midInv_def)
  show ?thesis
  proof (cases "foundBestEdge sm")
    case False
    let ?e = "\<lparr>S = leftBoundary sm, WordCount = WordCount (path sm ! nat (leftBoundary sm)) + 1,
               UnkCount = UnkCount (path sm ! nat (leftBoundary sm)) + 1\<rparr>"
    have lk': "linked (Suc i) ((path sm)[Suc i := ?e])"
      using lk lb len by (intro linked_extend) simp_all
    have w: "writeBest (int i) sm =
        Some (sm\<lparr>bestEdge := ?e, foundBestEdge := True, path := (path sm)[Suc i := ?e]\<rparr>)"
      using False lb len by (simp add: writeBest_def rd_def wr_def nat_add_distrib)
    show ?thesis unfolding w using lk' assms
      by (auto simp: midInv_def scanInv_def)
  next
    case True
    then have be: "0 \<le> S (bestEdge sm)" "S (bestEdge sm) \<le> int i"
      "WordCount (bestEdge sm) = WordCount (path sm ! nat (S (bestEdge sm))) + 1"
      using assms by (simp_all add: midInv_def)
    have lk': "linked (Suc i) ((path sm)[Suc i := bestEdge sm])"
      using lk be len by (intro linked_extend) simp_all
    have w: "writeBest (int i) sm =
        Some (sm\<lparr>leftBoundary := int i + 1, path := (path sm)[Suc i := bestEdge sm]\<rparr>)"
      using True len by (simp add: writeBest_def wr_def nat_add_distrib)
    show ?thesis unfolding w using lk' assms
      by (auto simp: midInv_def scanInv_def)
  qed
qed




lemma scanRune_inv:
  assumes "scanInv n i sm" "i < n"
  shows "\<exists>sm'. scanRune (int i) ch sm = Some sm' \<and> scanInv n (Suc i) sm' \<and> dict sm' = dict sm \<and>
           (Suc i = n \<longrightarrow> \<not> foundSpace sm' \<and> \<not> foundLatin sm') \<and>
           pointers sm' = (if IsLatin ch \<or> IsSpace ch then pointers sm
                           else advancePointers (dict sm) ch (pointers sm @ [zeroPointer])) \<and>
           (\<not> IsLatin ch \<and> \<not> IsSpace ch \<longrightarrow> \<not> foundSpace sm' \<and> \<not> foundLatin sm')"
proof -
  let ?sm = "beginRune sm"
  let ?ps = "if IsLatin ch \<or> IsSpace ch then pointers sm
             else advancePointers (dict sm) ch (pointers sm @ [zeroPointer])"
  have inv: "scanInv n i ?sm" using assms(1) by (simp add: scanInv_def beginRune_def)
  have nb: "\<not> foundBestEdge ?sm" by (simp add: beginRune_def)
  have dsm: "dict ?sm = dict sm" "pointers ?sm = pointers sm" by (simp_all add: beginRune_def)
  have "\<exists>sm1. (if IsLatin ch then latinBranch (int i) ?sm
                else if IsSpace ch then spaceBranch (int i) ?sm
                else textBranch (int i) ch ?sm) = Some sm1 \<and> midInv n i sm1 \<and> dict sm1 = dict sm \<and>
             (Suc i = n \<longrightarrow> \<not> foundSpace sm1 \<and> \<not> foundLatin sm1) \<and> pointers sm1 = ?ps \<and>
             (\<not> IsLatin ch \<and> \<not> IsSpace ch \<longrightarrow> \<not> foundSpace sm1 \<and> \<not> foundLatin sm1)"
  proof (cases "IsLatin ch")
    case True
    then show ?thesis using latinBranch_mid[OF inv assms(2) nb] dsm by auto
  next
    case False
    show ?thesis
    proof (cases "IsSpace ch")
      case True
      then show ?thesis using False spaceBranch_mid[OF inv assms(2) nb] dsm by auto
    next
      case sp: False
      then show ?thesis using False textBranch_mid[OF inv assms(2) nb, of ch] dsm by auto
    qed
  qed
  then obtain sm1 where br: "(if IsLatin ch then latinBranch (int i) ?sm
                else if IsSpace ch then spaceBranch (int i) ?sm
                else textBranch (int i) ch ?sm) = Some sm1" and mid: "midInv n i sm1"
    and eq: "dict sm1 = dict sm" "Suc i = n \<longrightarrow> \<not> foundSpace sm1 \<and> \<not> foundLatin sm1"
      "pointers sm1 = ?ps" "\<not> IsLatin ch \<and> \<not> IsSpace ch \<longrightarrow> \<not> foundSpace sm1 \<and> \<not> foundLatin sm1"
    by blast
  from writeBest_inv[OF mid] obtain sm' where
    w: "writeBest (int i) sm1 = Some sm'" and inv': "scanInv n (Suc i) sm'"
    and eq': "dict sm' = dict sm1" "foundLatin sm' = foundLatin sm1" "foundSpace sm' = foundSpace sm1"
      "pointers sm' = pointers sm1"
    by blast
  have "scanRune (int i) ch sm = Some sm'"
    unfolding scanRune_def Let_def br using w by simp
  then show ?thesis using inv' eq eq' by simp
qed

lemma scanLine_inv:
  assumes "scanInv n i sm" "i + length rest = n"
  shows "\<exists>sm'. scanLine (int i) rest sm = Some sm' \<and> scanInv n n sm' \<and> dict sm' = dict sm \<and>
           (rest \<noteq> [] \<longrightarrow> \<not> foundSpace sm' \<and> \<not> foundLatin sm')"
  using assms
proof (induction rest arbitrary: i sm)
  case Nil
  then show ?case by simp
next
  case (Cons ch rest)
  then have lt: "i < n" by simp
  from scanRune_inv[OF Cons.prems(1) lt, of ch] obtain sm1 where
    r: "scanRune (int i) ch sm = Some sm1" and inv1: "scanInv n (Suc i) sm1"
    and eq1: "dict sm1 = dict sm" "Suc i = n \<longrightarrow> \<not> foundSpace sm1 \<and> \<not> foundLatin sm1"
    by blast
  have len: "Suc i + length rest = n" using Cons.prems(2) by simp
  from Cons.IH[OF inv1 len] obtain sm' where
    l: "scanLine (int (Suc i)) rest sm1 = Some sm'" and inv': "scanInv n n sm'"
    and eq': "dict sm' = dict sm1" "rest \<noteq> [] \<longrightarrow> \<not> foundSpace sm' \<and> \<not> foundLatin sm'"
    by blast
  have i1: "int i + 1 = int (Suc i)" by simp
  have "scanLine (int i) (ch # rest) sm = Some sm'"
    using r l by (simp only: scanLine.simps i1) simp
  moreover have "\<not> foundSpace sm' \<and> \<not> foundLatin sm'"
  proof (cases rest)
    case Nil
    then show ?thesis using l eq1 len by simp
  next
    case (Cons a as)
    then show ?thesis using eq' by simp
  qed
  ultimately show ?case using inv' eq1 eq' by simp
qed

lemma scanInv_reset:
  assumes "\<not> foundSpace sm"
  shows "scanInv (length line) 0 (resetSegmenter line sm)"
  using assms by (simp add: resetSegmenter_eq scanInv_def linked_def)

lemma BuildPath_inv:
  assumes "\<not> foundSpace sm"
  shows "\<exists>sm'. BuildPath line sm = Some sm' \<and> scanInv (length line) (length line) sm' \<and>
           dict sm' = dict sm \<and> \<not> foundSpace sm' \<and> \<not> foundLatin sm'"
proof -
  from scanLine_inv[OF scanInv_reset[OF assms, of line], of line] obtain sm' where
    l: "scanLine 0 line (resetSegmenter line sm) = Some sm'"
    and inv: "scanInv (length line) (length line) sm'"
    and eq: "dict sm' = dict (resetSegmenter line sm)"
      "line \<noteq> [] \<longrightarrow> \<not> foundSpace sm' \<and> \<not> foundLatin sm'"
    by auto
  have "\<not> foundSpace sm' \<and> \<not> foundLatin sm'"
  proof (cases line)
    case Nil
    then show ?thesis using l assms by (auto simp: resetSegmenter_eq)
  next
    case (Cons a as)
    then show ?thesis using eq by simp
  qed
  then show ?thesis using l inv eq by (simp add: BuildPath_def resetSegmenter_eq)
qed




subsection \<open>The walk along the back pointers\<close>

lemma walkBack_ok:
  assumes "linked n p" "length p = Suc n" "length line = n" "WordCount (p ! 0) = 0"
  shows "0 \<le> e \<Longrightarrow> e \<le> i \<Longrightarrow> i \<le> int n \<Longrightarrow> length toks = Suc n \<Longrightarrow>
     \<exists>i' toks' ts. walkBack p line e i toks = Some (i', toks') \<and> - 1 \<le> i' \<and> i' \<le> i \<and>
       drop (nat (i' + 1)) toks' = ts @ drop (nat (i + 1)) toks \<and>
       concat ts = take (nat e) line \<and> int (length ts) = WordCount (p ! nat e) \<and>
       [] \<notin> set ts"
proof (induction "nat e" arbitrary: e i toks rule: less_induct)
  case less
  show ?case
  proof (cases "e > 0")
    case False
    with less.prems have e0: "e = 0" by simp
    have "walkBack p line e i toks = Some (i, toks)"
      using e0 by (subst walkBack.simps) simp
    then show ?thesis
      using e0 assms(4) less.prems by (intro exI[of _ i] exI[of _ toks] exI[of _ "[]"]) simp
  next
    case True
    define j where "j = nat e"
    have j: "1 \<le> j" "j \<le> n" "e = int j" using True less.prems by (simp_all add: j_def)
    define s where "s = S (p ! j)"
    from assms(1) j have sp: "0 \<le> s" "s < int j" "WordCount (p ! j) = WordCount (p ! nat s) + 1"
      unfolding linked_def s_def by blast+
    define t where "t = take (nat e - nat s) (drop (nat s) line)"
    have rd: "rd p e = Some (p ! j)"
      using j assms(2) by (simp add: rd_def)
    have sl: "sliceRunes line (S (p ! j)) e = Some t"
      using sp j assms(3) by (simp add: sliceRunes_def t_def s_def)
    have i0: "0 \<le> i" "i < int (length toks)" using True less.prems by simp_all
    have w: "wr toks i t = Some (toks[nat i := t])"
      using i0 by (simp add: wr_def)
    have step: "walkBack p line e i toks = walkBack p line s (i - 1) (toks[nat i := t])"
      using True rd sl w by (subst walkBack.simps) (simp add: s_def)
    have "nat s < nat e" using sp j by simp
    moreover have "0 \<le> s" "s \<le> i - 1" "i - 1 \<le> int n" "length (toks[nat i := t]) = Suc n"
      using sp j less.prems by simp_all
    ultimately obtain i' toks' ts where
      r: "walkBack p line s (i - 1) (toks[nat i := t]) = Some (i', toks')"
      and b: "- 1 \<le> i'" "i' \<le> i - 1"
      and d: "drop (nat (i' + 1)) toks' = ts @ drop (nat (i - 1 + 1)) (toks[nat i := t])"
      and c: "concat ts = take (nat s) line" "int (length ts) = WordCount (p ! nat s)" "[] \<notin> set ts"
      using less.hyps[of s "i - 1" "toks[nat i := t]"] by blast
    have "drop (nat i) (toks[nat i := t]) = t # drop (Suc (nat i)) toks"
      using i0 by (simp add: drop_update_cancel Cons_nth_drop_Suc[symmetric, of "nat i" "toks[nat i := t]"])
    then have d': "drop (nat (i' + 1)) toks' = (ts @ [t]) @ drop (nat (i + 1)) toks"
      using d i0 by (simp add: nat_add_distrib)
    have "take (nat e) line = take (nat s) line @ t"
    proof -
      have "nat e = nat s + (nat e - nat s)" using sp j by simp
      then show ?thesis unfolding t_def by (metis take_add)
    qed
    then have c': "concat (ts @ [t]) = take (nat e) line"
      using c by simp
    have "nat s < j" using sp by linarith
    then have tne: "t \<noteq> []"
      using j assms(3) by (simp add: t_def)
    have l': "int (length (ts @ [t])) = WordCount (p ! nat e)"
      using c sp j by simp
    show ?thesis
      unfolding step r using b d' c' l' tne c(3)
      by (intro exI[of _ i'] exI[of _ toks'] exI[of _ "ts @ [t]"]) simp
  qed
qed




lemma Segment_ok:
  assumes "\<not> foundSpace sm"
  shows "\<exists>toks sm'. BuildPath line sm = Some sm' \<and> Segment line sm = Some (toks, sm') \<and>
           scanInv (length line) (length line) sm' \<and> dict sm' = dict sm \<and> \<not> foundSpace sm' \<and>
           \<not> foundLatin sm' \<and> concat toks = line \<and> int (length toks) = WordCount (path sm' ! length line) \<and>
           [] \<notin> set toks"
proof -
  let ?n = "length line"
  from BuildPath_inv[OF assms, of line] obtain sm' where
    b: "BuildPath line sm = Some sm'" and inv: "scanInv ?n ?n sm'"
    and eq: "dict sm' = dict sm" "\<not> foundSpace sm'" "\<not> foundLatin sm'"
    by blast
  have len: "length (path sm') = Suc ?n" and lk: "linked ?n (path sm')"
    and z: "WordCount (path sm' ! 0) = 0"
    using inv by (simp_all add: scanInv_def zeroEdge_def)
  from walkBack_ok[OF lk len refl z, of "int ?n" "int ?n" "replicate (Suc ?n) []"]
  obtain i' toks' ts where
    w: "walkBack (path sm') line (int ?n) (int ?n) (replicate (Suc ?n) []) = Some (i', toks')"
    and d: "drop (nat (i' + 1)) toks' = ts @ drop (nat (int ?n + 1)) (replicate (Suc ?n) [])"
    and c: "concat ts = take (nat (int ?n)) line" "int (length ts) = WordCount (path sm' ! nat (int ?n))"
      "[] \<notin> set ts"
    by auto
  have d': "drop (nat (i' + 1)) toks' = ts" using d by (simp add: nat_add_distrib)
  have r: "rd (path sm') (int ?n) = Some (path sm' ! ?n)" using len by (simp add: rd_def)
  have "Segment line sm = Some (ts, sm')"
    using b len r w d' by (simp add: Segment_def Let_def)
  then show ?thesis using b inv eq c by simp
qed




subsection \<open>The empty trie\<close>

lemma advancePointers_empty: "advancePointers Map.empty ch ps = []"
  by (induction ps) (simp_all add: advancePointers_eq List.map_filter_simps movePointer_def)

lemma scanRune_unk:
  assumes "unkInv n i sm" "i < n" "\<not> IsLatin ch" "\<not> IsSpace ch"
  shows "\<exists>sm'. scanRune (int i) ch sm = Some sm' \<and> unkInv n (Suc i) sm'"
proof -
  let ?e = "\<lparr>S = 0, WordCount = 1, UnkCount = 1\<rparr>"
  have a: "advanceText (int i) ch (beginRune sm) = Some (beginRune sm)"
    using assms(1)
    by (simp add: advanceText_def flushSpace_def flushLatin_def beginRune_def unkInv_def
        advancePointers_empty)
  have t: "textBranch (int i) ch (beginRune sm) = Some (beginRune sm)"
    using assms(1) by (simp add: textBranch_def a) (simp add: beginRune_def unkInv_def)
  have w: "writeBest (int i) (beginRune sm) =
      Some (sm\<lparr>bestEdge := ?e, foundBestEdge := True, path := (path sm)[Suc i := ?e]\<rparr>)"
    using assms(1,2)
    by (simp add: writeBest_def beginRune_def unkInv_def rd_def wr_def zeroEdge_def nat_add_distrib)
  have "scanRune (int i) ch sm =
      Some (sm\<lparr>bestEdge := ?e, foundBestEdge := True, path := (path sm)[Suc i := ?e]\<rparr>)"
    using assms(3,4) by (simp add: scanRune_def Let_def t w)
  then show ?thesis using assms(1,2) by (simp add: unkInv_def)
qed

lemma scanLine_unk:
  assumes "unkInv n i sm" "i + length rest = n" "\<forall>c \<in> set rest. \<not> IsLatin c \<and> \<not> IsSpace c"
  shows "\<exists>sm'. scanLine (int i) rest sm = Some sm' \<and> unkInv n n sm'"
  using assms
proof (induction rest arbitrary: i sm)
  case Nil
  then show ?case by simp
next
  case (Cons ch rest)
  then have "i < n" "\<not> IsLatin ch" "\<not> IsSpace ch" by simp_all
  from scanRune_unk[OF Cons.prems(1) this] obtain sm1 where
    r: "scanRune (int i) ch sm = Some sm1" and u: "unkInv n (Suc i) sm1"
    by blast
  have "Suc i + length rest = n" "\<forall>c \<in> set rest. \<not> IsLatin c \<and> \<not> IsSpace c"
    using Cons.prems by simp_all
  from Cons.IH[OF u this] obtain sm' where
    l: "scanLine (int (Suc i)) rest sm1 = Some sm'" and u': "unkInv n n sm'"
    by blast
  have i1: "int i + 1 = int (Suc i)" by simp
  have "scanLine (int i) (ch # rest) sm = Some sm'"
    using r l by (simp only: scanLine.simps i1) simp
  then show ?case using u' by simp
qed

lemma BuildPath_unk:
  assumes "\<forall>c \<in> set line. \<not> IsLatin c \<and> \<not> IsSpace c"
  shows "\<exists>sm'. BuildPath line (newSegmenter Map.empty) = Some sm' \<and>
           unkInv (length line) (length line) sm'"
proof -
  have "unkInv (length line) 0 (resetSegmenter line (newSegmenter Map.empty))"
    by (simp add: resetSegmenter_eq newSegmenter_def unkInv_def)
  from scanLine_unk[OF this _ assms] show ?thesis
    by (simp add: BuildPath_def)
qed

lemma MakePrefixTree_Nil: "MakePrefixTree [] = Map.empty"
  by (simp add: MakePrefixTree_def)




subsection \<open>A reused \<open>Segmenter\<close>\<close>

lemma beginRune_idem: "beginRune (beginRune sm) = beginRune sm"
  by (simp add: beginRune_def)

lemma scanRune_beginRune:
  assumes "beginRune sm1 = beginRune sm2"
  shows "scanRune i ch sm1 = scanRune i ch sm2"
  using assms by (simp add: scanRune_def)

lemma scanLine_beginRune:
  assumes "beginRune sm1 = beginRune sm2"
  shows "map_option beginRune (scanLine i rest sm1) = map_option beginRune (scanLine i rest sm2)"
proof (cases rest)
  case Nil
  then show ?thesis using assms by simp
next
  case (Cons ch r)
  then show ?thesis using scanRune_beginRune[OF assms, of i ch] by simp
qed

lemma path_beginRune: "path (beginRune sm) = path sm"
  by (simp add: beginRune_def)

lemma reset_beginRune:
  assumes "\<not> foundSpace sm"
  shows "beginRune (resetSegmenter line sm) = beginRune (resetSegmenter line (newSegmenter (dict sm)))"
  using assms by (cases sm) (simp add: resetSegmenter_eq beginRune_def newSegmenter_def)

lemma BuildPath_path_fresh:
  assumes "\<not> foundSpace sm"
  shows "map_option path (BuildPath line sm) =
         map_option path (BuildPath line (newSegmenter (dict sm)))"
proof -
  have "map_option path (map_option beginRune (BuildPath line sm)) =
        map_option path (map_option beginRune (BuildPath line (newSegmenter (dict sm))))"
    unfolding BuildPath_def
    using scanLine_beginRune[OF reset_beginRune[OF assms, of line], of 0 line] by simp
  then show ?thesis
    by (simp add: option.map_comp comp_def path_beginRune)
qed

lemma Segment_tokens_path:
  assumes "map_option path (BuildPath line sm1) = map_option path (BuildPath line sm2)"
  shows "map_option fst (Segment line sm1) = map_option fst (Segment line sm2)"
proof (cases "BuildPath line sm1")
  case None
  then have "BuildPath line sm2 = None" using assms by simp
  then show ?thesis using None by (simp add: Segment_def)
next
  case (Some a)
  then obtain b where b: "BuildPath line sm2 = Some b" "path b = path a"
    using assms by (cases "BuildPath line sm2") auto
  show ?thesis
    using Some b by (simp add: Segment_def Let_def split: Option.bind_split prod.splits)
qed

lemma Segment_fresh:
  assumes "\<not> foundSpace sm"
  shows "map_option fst (Segment line sm) = segment line (dict sm)"
  unfolding segment_def
  by (rule Segment_tokens_path) (rule BuildPath_path_fresh[OF assms])

lemma SegmentReused_fresh:
  assumes "\<not> foundSpace sm" "\<not> foundLatin sm"
  shows "\<exists>results sm'. SegmentReused ls sm = Some (results, sm') \<and>
           SegmentFresh ls (dict sm) = Some results \<and> \<not> foundSpace sm' \<and>
           \<not> foundLatin sm' \<and> dict sm' = dict sm"
  using assms
proof (induction ls arbitrary: sm)
  case Nil
  then show ?case by simp
next
  case (Cons l ls)
  from Segment_ok[OF Cons.prems(1), of l] obtain toks sm1 where
    s: "Segment l sm = Some (toks, sm1)" and eq: "dict sm1 = dict sm" "\<not> foundSpace sm1"
      "\<not> foundLatin sm1"
    by blast
  from Segment_fresh[OF Cons.prems(1), of l] s have f: "segment l (dict sm) = Some toks"
    by simp
  from Cons.IH[OF eq(2,3)] obtain results sm' where
    r: "SegmentReused ls sm1 = Some (results, sm')" "SegmentFresh ls (dict sm1) = Some results"
      "\<not> foundSpace sm'" "\<not> foundLatin sm'" "dict sm' = dict sm1"
    by blast
  show ?case using s f r eq by simp
qed




subsection \<open>The choice among the candidate edges\<close>

lemma preferred_refl: "preferred e e"
  by (simp add: preferred_def)

lemma preferred_replace:
  assumes "preferred b' e" "S b < S e"
    "UnkCount e < UnkCount b \<or> (UnkCount e = UnkCount b \<and> WordCount e \<le> WordCount b)"
  shows "preferred b' b"
  using assms unfolding preferred_def by linarith

lemma preferred_keep:
  assumes "preferred b' b"
    "\<not> (UnkCount e < UnkCount b \<or> (UnkCount e = UnkCount b \<and> WordCount e \<le> WordCount b))"
  shows "preferred b' e"
  using assms unfolding preferred_def by linarith




lemma dictEdges_select:
  assumes "sorted_wrt (\<lambda>p q. Offset q < Offset p) ps"
    and "\<forall>q \<in> set ps. 0 \<le> 1 + i - Offset q \<and> 1 + i - Offset q < int (length (path sm))"
    and "foundBestEdge sm \<longrightarrow> (\<forall>q \<in> set ps. S (bestEdge sm) < 1 + i - Offset q)"
  shows "\<exists>sm'. dictEdges i ps sm = Some sm' \<and> path sm' = path sm \<and>
           (foundBestEdge sm' \<longleftrightarrow> foundBestEdge sm \<or> (\<exists>q \<in> set ps. IsFinal q)) \<and>
           (foundBestEdge sm' \<longrightarrow>
              ((foundBestEdge sm \<and> bestEdge sm' = bestEdge sm) \<or>
               (\<exists>q \<in> set ps. IsFinal q \<and> edgeFrom (path sm) (1 + i - Offset q) = Some (bestEdge sm'))) \<and>
              (foundBestEdge sm \<longrightarrow> preferred (bestEdge sm') (bestEdge sm)) \<and>
              (\<forall>q \<in> set ps. IsFinal q \<longrightarrow>
                 (\<exists>e. edgeFrom (path sm) (1 + i - Offset q) = Some e \<and> preferred (bestEdge sm') e)))"
  using assms
proof (induction ps arbitrary: sm)
  case Nil
  then show ?case by (simp add: preferred_refl)
next
  case (Cons p ps)
  have srt: "sorted_wrt (\<lambda>p q. Offset q < Offset p) ps" and lt: "\<forall>q \<in> set ps. Offset q < Offset p"
    using Cons.prems(1) by simp_all
  have rng: "\<forall>q \<in> set ps. 0 \<le> 1 + i - Offset q \<and> 1 + i - Offset q < int (length (path sm))"
    using Cons.prems(2) by simp
  show ?case
  proof (cases "IsFinal p")
    case False
    have b: "foundBestEdge sm \<longrightarrow> (\<forall>q \<in> set ps. S (bestEdge sm) < 1 + i - Offset q)"
      using Cons.prems(3) by simp
    from Cons.IH[OF srt rng b] False show ?thesis by simp
  next
    case True
    let ?s = "1 + i - Offset p"
    let ?e = "\<lparr>S = ?s, WordCount = WordCount (path sm ! nat ?s) + 1,
               UnkCount = UnkCount (path sm ! nat ?s)\<rparr>"
    let ?sm = "sm\<lparr>bestEdge := ?e, foundBestEdge := True\<rparr>"
    have e: "edgeFrom (path sm) ?s = Some ?e"
      using Cons.prems(2) by (intro edgeFrom_Some) simp_all
    have rng1: "\<forall>q \<in> set ps. 0 \<le> 1 + i - Offset q \<and> 1 + i - Offset q < int (length (path ?sm))"
      using rng by simp
    have b1: "foundBestEdge ?sm \<longrightarrow> (\<forall>q \<in> set ps. S (bestEdge ?sm) < 1 + i - Offset q)"
      using lt by simp
    have ih1: "\<exists>sm'. dictEdges i ps ?sm = Some sm' \<and> path sm' = path sm \<and> foundBestEdge sm' \<and>
        (foundBestEdge sm' \<longrightarrow>
           (bestEdge sm' = ?e \<or>
            (\<exists>q \<in> set ps. IsFinal q \<and> edgeFrom (path sm) (1 + i - Offset q) = Some (bestEdge sm'))) \<and>
           preferred (bestEdge sm') ?e \<and>
           (\<forall>q \<in> set ps. IsFinal q \<longrightarrow>
              (\<exists>e. edgeFrom (path sm) (1 + i - Offset q) = Some e \<and> preferred (bestEdge sm') e)))"
      using Cons.IH[OF srt rng1 b1] by simp
    then obtain sm1 where
      d1: "dictEdges i ps ?sm = Some sm1" and p1: "path sm1 = path sm" and f1: "foundBestEdge sm1"
      and o1: "bestEdge sm1 = ?e \<or>
               (\<exists>q \<in> set ps. IsFinal q \<and> edgeFrom (path sm) (1 + i - Offset q) = Some (bestEdge sm1))"
      and r1: "preferred (bestEdge sm1) ?e"
      and a1: "\<forall>q \<in> set ps. IsFinal q \<longrightarrow>
                 (\<exists>e. edgeFrom (path sm) (1 + i - Offset q) = Some e \<and> preferred (bestEdge sm1) e)"
      by blast
    have step: "dictEdges i (p # ps) sm =
        (if \<not> foundBestEdge sm \<or> UnkCount ?e < UnkCount (bestEdge sm) \<or>
            (UnkCount ?e = UnkCount (bestEdge sm) \<and> WordCount ?e \<le> WordCount (bestEdge sm))
         then dictEdges i ps ?sm else dictEdges i ps sm)"
      by (simp add: True e)
    show ?thesis
    proof (cases "\<not> foundBestEdge sm \<or> UnkCount ?e < UnkCount (bestEdge sm) \<or>
                  (UnkCount ?e = UnkCount (bestEdge sm) \<and> WordCount ?e \<le> WordCount (bestEdge sm))")
      case take: True
      have d: "dictEdges i (p # ps) sm = Some sm1"
        unfolding step using take d1 by (simp only: if_True)
      have pb: "foundBestEdge sm \<longrightarrow> preferred (bestEdge sm1) (bestEdge sm)"
      proof
        assume f: "foundBestEdge sm"
        then have "S (bestEdge sm) < S ?e" using Cons.prems(3) by simp
        moreover have "UnkCount ?e < UnkCount (bestEdge sm) \<or>
                  (UnkCount ?e = UnkCount (bestEdge sm) \<and> WordCount ?e \<le> WordCount (bestEdge sm))"
          using take f by blast
        ultimately show "preferred (bestEdge sm1) (bestEdge sm)"
          by (rule preferred_replace[OF r1])
      qed
      have ob: "edgeFrom (path sm) (1 + i - Offset p) = Some (bestEdge sm1) \<or>
                (\<exists>q \<in> set ps. IsFinal q \<and>
                  edgeFrom (path sm) (1 + i - Offset q) = Some (bestEdge sm1))"
        using o1 e by auto
      have ap: "\<exists>e. edgeFrom (path sm) (1 + i - Offset p) = Some e \<and> preferred (bestEdge sm1) e"
        using e r1 by blast
      have ab: "\<forall>q \<in> set (p # ps). IsFinal q \<longrightarrow>
                 (\<exists>e. edgeFrom (path sm) (1 + i - Offset q) = Some e \<and> preferred (bestEdge sm1) e)"
      proof
        fix q assume "q \<in> set (p # ps)"
        then consider "q = p" | "q \<in> set ps" by auto
        then show "IsFinal q \<longrightarrow>
                 (\<exists>e. edgeFrom (path sm) (1 + i - Offset q) = Some e \<and> preferred (bestEdge sm1) e)"
        proof cases
          case 1
          then show ?thesis using ap by blast
        next
          case 2
          then show ?thesis using a1 by blast
        qed
      qed
      show ?thesis
        apply (intro exI[of _ sm1] conjI impI)
        subgoal by (rule d)
        subgoal by (rule p1)
        subgoal using f1 True by simp
        subgoal using ob True by (simp del: ex_simps)
        subgoal using pb by blast
        subgoal by (rule ab)
        done
    next
      case keep: False
      then have f: "foundBestEdge sm" by simp
      have b: "foundBestEdge sm \<longrightarrow> (\<forall>q \<in> set ps. S (bestEdge sm) < 1 + i - Offset q)"
        using Cons.prems(3) by simp
      have ih2: "\<exists>sm'. dictEdges i ps sm = Some sm' \<and> path sm' = path sm \<and> foundBestEdge sm' \<and>
       (foundBestEdge sm' \<longrightarrow>
        (bestEdge sm' = bestEdge sm \<or>
            (\<exists>q \<in> set ps. IsFinal q \<and> edgeFrom (path sm) (1 + i - Offset q) = Some (bestEdge sm'))) \<and>
        preferred (bestEdge sm') (bestEdge sm) \<and>
        (\<forall>q \<in> set ps. IsFinal q \<longrightarrow>
              (\<exists>e. edgeFrom (path sm) (1 + i - Offset q) = Some e \<and> preferred (bestEdge sm') e)))"
        using Cons.IH[OF srt rng b] f by simp
      then obtain sm2 where
        d2: "dictEdges i ps sm = Some sm2" and p2: "path sm2 = path sm" and f2: "foundBestEdge sm2"
        and o2: "bestEdge sm2 = bestEdge sm \<or>
               (\<exists>q \<in> set ps. IsFinal q \<and> edgeFrom (path sm) (1 + i - Offset q) = Some (bestEdge sm2))"
        and r2: "preferred (bestEdge sm2) (bestEdge sm)"
        and a2: "\<forall>q \<in> set ps. IsFinal q \<longrightarrow>
                 (\<exists>e. edgeFrom (path sm) (1 + i - Offset q) = Some e \<and> preferred (bestEdge sm2) e)"
        by blast
      have d: "dictEdges i (p # ps) sm = Some sm2"
        unfolding step using keep d2 by (simp only: if_False)
      have nk: "\<not> (UnkCount ?e < UnkCount (bestEdge sm) \<or>
                  (UnkCount ?e = UnkCount (bestEdge sm) \<and> WordCount ?e \<le> WordCount (bestEdge sm)))"
        using keep by blast
      have "preferred (bestEdge sm2) ?e"
        by (rule preferred_keep[OF r2 nk])
      then have ap: "\<exists>e. edgeFrom (path sm) (1 + i - Offset p) = Some e \<and> preferred (bestEdge sm2) e"
        using e by blast
      have ab: "\<forall>q \<in> set (p # ps). IsFinal q \<longrightarrow>
                 (\<exists>e. edgeFrom (path sm) (1 + i - Offset q) = Some e \<and> preferred (bestEdge sm2) e)"
      proof
        fix q assume "q \<in> set (p # ps)"
        then consider "q = p" | "q \<in> set ps" by auto
        then show "IsFinal q \<longrightarrow>
                 (\<exists>e. edgeFrom (path sm) (1 + i - Offset q) = Some e \<and> preferred (bestEdge sm2) e)"
        proof cases
          case 1
          then show ?thesis using ap by blast
        next
          case 2
          then show ?thesis using a2 by blast
        qed
      qed
      show ?thesis
        apply (intro exI[of _ sm2] conjI impI)
        subgoal by (rule d)
        subgoal by (rule p2)
        subgoal using f2 True by simp
        subgoal using o2 f by (metis list.set_intros(2))
        subgoal by (rule r2)
        subgoal by (rule ab)
        done
    qed
  qed
qed




subsection \<open>Cells that later iterations leave alone\<close>

lemma scanLine_append:
  "scanLine i (xs @ ys) sm = scanLine i xs sm \<bind> scanLine (i + int (length xs)) ys"
proof (induction xs arbitrary: i sm)
  case Nil
  then show ?case by simp
next
  case (Cons x xs)
  show ?case using Cons.IH[of "i + 1"]
    by (cases "scanRune i x sm") (simp_all add: add.assoc)
qed

lemma flushSpace_path:
  assumes "flushSpace i sm = Some sm1" "j \<noteq> nat i \<or> \<not> foundSpace sm"
  shows "path sm1 ! j = path sm ! j"
proof (cases "foundSpace sm")
  case False
  then show ?thesis using assms(1) by (simp add: flushSpace_def)
next
  case True
  then have j: "j \<noteq> nat i" using assms(2) by simp
  from assms(1) True obtain e where "path sm1 = (path sm)[nat i := e]"
    by (auto simp: flushSpace_def wr_def split: Option.bind_splits if_splits)
  then show ?thesis using j by simp
qed

lemma flushLatin_path:
  assumes "flushLatin i sm = Some sm1" "j \<noteq> nat i \<or> \<not> foundLatin sm"
  shows "path sm1 ! j = path sm ! j"
proof (cases "foundLatin sm")
  case False
  then show ?thesis using assms(1) by (simp add: flushLatin_def)
next
  case True
  then have j: "j \<noteq> nat i" using assms(2) by simp
  from assms(1) True obtain e where "path sm1 = (path sm)[nat i := e]"
    by (auto simp: flushLatin_def wr_def split: Option.bind_splits if_splits)
  then show ?thesis using j by simp
qed

lemma flushSpace_flags:
  assumes "flushSpace i sm = Some sm1"
  shows "foundLatin sm1 = foundLatin sm"
  using assms by (auto simp: flushSpace_def split: if_splits Option.bind_splits)

lemma latinBranch_path:
  assumes "latinBranch i sm = Some sm1" "j \<noteq> nat i \<or> \<not> foundSpace sm"
  shows "path sm1 ! j = path sm ! j"
proof -
  from assms(1) obtain sm0 where f: "flushSpace i sm = Some sm0"
    by (auto simp: latinBranch_def split: Option.bind_splits)
  have "path sm1 = path sm0"
    using assms(1) f by (auto simp: latinBranch_def Let_def split: if_splits Option.bind_splits)
  then show ?thesis using flushSpace_path[OF f assms(2)] by simp
qed

lemma spaceBranch_path:
  assumes "spaceBranch i sm = Some sm1" "j \<noteq> nat i \<or> \<not> foundLatin sm"
  shows "path sm1 ! j = path sm ! j"
proof -
  from assms(1) obtain sm0 where f: "flushLatin i sm = Some sm0"
    by (auto simp: spaceBranch_def split: Option.bind_splits)
  have "path sm1 = path sm0"
    using assms(1) f by (auto simp: spaceBranch_def Let_def split: if_splits Option.bind_splits)
  then show ?thesis using flushLatin_path[OF f assms(2)] by simp
qed

lemma advanceText_path:
  assumes "advanceText i ch sm = Some sm1" "j \<noteq> nat i \<or> (\<not> foundSpace sm \<and> \<not> foundLatin sm)"
  shows "path sm1 ! j = path sm ! j"
proof -
  from assms(1) obtain sm0 sm0' where f: "flushSpace i sm = Some sm0" "flushLatin i sm0 = Some sm0'"
    and p: "path sm1 = path sm0'"
    by (auto simp: advanceText_def Let_def split: Option.bind_splits)
  have "foundLatin sm0 = foundLatin sm" by (rule flushSpace_flags[OF f(1)])
  then have "path sm0' ! j = path sm0 ! j"
    using assms(2) by (intro flushLatin_path[OF f(2)]) auto
  moreover have "path sm0 ! j = path sm ! j"
    using assms(2) by (intro flushSpace_path[OF f(1)]) auto
  ultimately show ?thesis using p by simp
qed

lemma dictEdges_path:
  "dictEdges i ps sm = Some sm1 \<Longrightarrow> path sm1 = path sm"
proof (induction ps arbitrary: sm)
  case Nil
  then show ?case by simp
next
  case (Cons p ps)
  show ?case
  proof (cases "IsFinal p")
    case False
    then show ?thesis using Cons by simp
  next
    case True
    with Cons.prems obtain e where
      "dictEdges i ps (sm\<lparr>bestEdge := e, foundBestEdge := True\<rparr>) = Some sm1 \<or>
       dictEdges i ps sm = Some sm1"
      by (auto split: Option.bind_splits if_splits)
    then show ?thesis using Cons.IH by auto
  qed
qed

lemma textBranch_path:
  assumes "textBranch i ch sm = Some sm1" "j \<noteq> nat i \<or> (\<not> foundSpace sm \<and> \<not> foundLatin sm)"
  shows "path sm1 ! j = path sm ! j"
proof -
  from assms(1) obtain sm0 where a: "advanceText i ch sm = Some sm0"
    and d: "dictEdges i (pointers sm0) sm0 = Some sm1"
    by (auto simp: textBranch_def split: Option.bind_splits)
  show ?thesis using advanceText_path[OF a assms(2)] dictEdges_path[OF d] by simp
qed

lemma writeBest_path:
  assumes "writeBest i sm = Some sm1" "j \<noteq> nat (i + 1)"
  shows "path sm1 ! j = path sm ! j"
proof -
  from assms(1) obtain e where "path sm1 = (path sm)[nat (i + 1) := e]"
    by (auto simp: writeBest_def wr_def split: Option.bind_splits if_splits)
  then show ?thesis using assms(2) by simp
qed

lemma scanRune_path:
  assumes "scanRune (int k) ch sm = Some sm1" "j \<le> k" "foundLatin sm \<or> foundSpace sm \<longrightarrow> j < k"
  shows "path sm1 ! j = path sm ! j"
proof -
  let ?b = "beginRune sm"
  have fl: "foundLatin ?b = foundLatin sm" "foundSpace ?b = foundSpace sm" "path ?b = path sm"
    by (simp_all add: beginRune_def)
  have c: "j \<noteq> nat (int k) \<or> (\<not> foundSpace ?b \<and> \<not> foundLatin ?b)"
    using assms(3) fl by auto
  from assms(1) obtain sm0 where
    br: "(if IsLatin ch then latinBranch (int k) ?b
          else if IsSpace ch then spaceBranch (int k) ?b
          else textBranch (int k) ch ?b) = Some sm0"
    and w: "writeBest (int k) sm0 = Some sm1"
    by (auto simp: scanRune_def Let_def split: Option.bind_splits)
  have "path sm0 ! j = path ?b ! j"
    using br c latinBranch_path[of "int k" ?b sm0 j] spaceBranch_path[of "int k" ?b sm0 j]
      textBranch_path[of "int k" ch ?b sm0 j]
    by (auto split: if_splits)
  moreover have "path sm1 ! j = path sm0 ! j"
    using assms(2) by (intro writeBest_path[OF w]) simp
  ultimately show ?thesis using fl by simp
qed

lemma scanLine_path:
  assumes "scanLine (int k) rest sm = Some sm1" "j \<le> k" "foundLatin sm \<or> foundSpace sm \<longrightarrow> j < k"
  shows "path sm1 ! j = path sm ! j"
  using assms
proof (induction rest arbitrary: k sm)
  case Nil
  then show ?case by simp
next
  case (Cons ch rest)
  from Cons.prems(1) obtain sm0 where r: "scanRune (int k) ch sm = Some sm0"
    and l: "scanLine (int k + 1) rest sm0 = Some sm1"
    by (auto split: Option.bind_splits)
  have l': "scanLine (int (Suc k)) rest sm0 = Some sm1"
    using l by (simp add: add.commute)
  have "path sm1 ! j = path sm0 ! j"
    using Cons.prems(2) by (intro Cons.IH[OF l']) simp_all
  then show ?case using scanRune_path[OF r Cons.prems(2,3)] by simp
qed




subsection \<open>The order of the live pointers\<close>

lemma sorted_wrt_map_filter:
  assumes "sorted_wrt R xs"
    and "\<And>x y x' y'. R x y \<Longrightarrow> f x = Some x' \<Longrightarrow> f y = Some y' \<Longrightarrow> R' x' y'"
  shows "sorted_wrt R' (List.map_filter f xs)"
  using assms(1)
proof (induction xs)
  case Nil
  then show ?case by (simp add: List.map_filter_simps)
next
  case (Cons x xs)
  then show ?case
    by (auto simp: List.map_filter_simps set_map_filter split: option.splits)
       (metis assms(2))
qed

lemma descending_advance:
  assumes "descending ps"
  shows "descending (advancePointers d ch (ps @ [zeroPointer]))"
proof -
  have ge: "\<forall>p \<in> set ps. 1 \<le> Offset p"
    using assms by (simp add: descending_def list_all_iff)
  have "sorted_wrt (\<lambda>p q. Offset q < Offset p) (ps @ [zeroPointer])"
    using assms ge by (auto simp: descending_def sorted_wrt_append zeroPointer_def)
  then have "sorted_wrt (\<lambda>p q. Offset q < Offset p) (List.map_filter (movePointer d ch) (ps @ [zeroPointer]))"
    by (rule sorted_wrt_map_filter) (auto dest!: movePointer_Offset)
  moreover have "\<forall>q \<in> set (List.map_filter (movePointer d ch) (ps @ [zeroPointer])). 1 \<le> Offset q"
  proof
    fix q assume "q \<in> set (List.map_filter (movePointer d ch) (ps @ [zeroPointer]))"
    then obtain p where p: "p \<in> set (ps @ [zeroPointer])" "movePointer d ch p = Some q"
      by (auto simp: set_map_filter)
    from p(1) ge have "0 \<le> Offset p" by (auto simp: zeroPointer_def)
    then show "1 \<le> Offset q" using movePointer_Offset[OF p(2)] by simp
  qed
  ultimately show ?thesis
    by (simp add: descending_def advancePointers_eq list_all_iff)
qed

lemma scanLine_prefix:
  assumes "scanInv n i sm" "i + length rest \<le> n" "descending (pointers sm)"
  shows "\<exists>sm'. scanLine (int i) rest sm = Some sm' \<and> scanInv n (i + length rest) sm' \<and>
           dict sm' = dict sm \<and> descending (pointers sm')"
  using assms
proof (induction rest arbitrary: i sm)
  case Nil
  then show ?case by simp
next
  case (Cons ch rest)
  then have lt: "i < n" by simp
  from scanRune_inv[OF Cons.prems(1) lt, of ch] obtain sm1 where
    r: "scanRune (int i) ch sm = Some sm1" and inv1: "scanInv n (Suc i) sm1"
    and eq1: "dict sm1 = dict sm"
    and ps: "pointers sm1 = (if IsLatin ch \<or> IsSpace ch then pointers sm
                           else advancePointers (dict sm) ch (pointers sm @ [zeroPointer]))"
    by blast
  have d1: "descending (pointers sm1)"
    using ps Cons.prems(3) descending_advance[of "pointers sm" "dict sm" ch] by (simp split: if_splits)
  have len: "Suc i + length rest \<le> n" using Cons.prems(2) by simp
  from Cons.IH[OF inv1 len d1] obtain sm' where
    l: "scanLine (int (Suc i)) rest sm1 = Some sm'" and inv': "scanInv n (Suc i + length rest) sm'"
    and eq': "dict sm' = dict sm1" "descending (pointers sm')"
    by blast
  have i1: "int i + 1 = int (Suc i)" by simp
  have "scanLine (int i) (ch # rest) sm = Some sm'"
    using r l by (simp only: scanLine.simps i1) simp
  then show ?case using inv' eq1 eq' by simp
qed




lemma advanceText_mid:
  assumes "scanInv n i sm" "i < n" "\<not> foundBestEdge sm"
  shows "\<exists>sma. advanceText (int i) ch sm = Some sma \<and> midInv n i sma \<and> dict sma = dict sm \<and>
           pointers sma = advancePointers (dict sm) ch (pointers sm @ [zeroPointer]) \<and>
           \<not> foundSpace sma \<and> \<not> foundLatin sma \<and> \<not> foundBestEdge sma"
proof -
  from flushSpace_inv[OF assms(1,2)] obtain sm0 where
    fl0: "flushSpace (int i) sm = Some sm0" and inv0: "scanInv n i sm0"
    and nf0: "\<not> foundSpace sm0"
    and eq0: "pointers sm0 = pointers sm" "dict sm0 = dict sm" "foundBestEdge sm0 = foundBestEdge sm"
    by blast
  from flushLatin_inv[OF inv0 assms(2)] obtain sm1 where
    fl1: "flushLatin (int i) sm0 = Some sm1" and inv1: "scanInv n i sm1"
    and nf1: "\<not> foundLatin sm1" "foundSpace sm1 = foundSpace sm0"
    and eq1: "pointers sm1 = pointers sm0" "dict sm1 = dict sm0" "foundBestEdge sm1 = foundBestEdge sm0"
    by blast
  let ?ps = "advancePointers (dict sm) ch (pointers sm @ [zeroPointer])"
  let ?sm = "sm1\<lparr>pointers := ?ps\<rparr>"
  have "\<forall>p \<in> set (pointers sm @ [zeroPointer]). 0 \<le> Offset p \<and> Offset p \<le> int i"
    using assms(1) by (auto simp: scanInv_def zeroPointer_def)
  then have ps: "\<forall>q \<in> set ?ps. 1 \<le> Offset q \<and> Offset q \<le> int i + 1"
    by (rule advancePointers_Offset)
  have mid: "midInv n i ?sm"
    using inv1 assms(2) _ ps by (rule scanInv_midInv) (simp add: eq0 eq1 assms(3))
  have "advanceText (int i) ch sm = Some ?sm"
    by (simp add: advanceText_def fl0 fl1 eq0 eq1)
  then show ?thesis using mid nf0 nf1 eq0 eq1 assms(3) by simp
qed

lemma scanRune_text_select:
  assumes "scanInv n i sm" "i < n" "descending (pointers sm)" "\<not> IsLatin ch" "\<not> IsSpace ch"
  shows "\<exists>sma sm1. advanceText (int i) ch (beginRune sm) = Some sma \<and>
           scanRune (int i) ch sm = Some sm1 \<and> scanInv n (Suc i) sm1 \<and>
           \<not> foundLatin sm1 \<and> \<not> foundSpace sm1 \<and>
           ((\<exists>q \<in> set (pointers sma). IsFinal q) \<longrightarrow>
              (\<exists>pm \<in> set (pointers sma). IsFinal pm \<and>
                 edgeFrom (path sma) (1 + int i - Offset pm) = Some (path sm1 ! Suc i)) \<and>
              (\<forall>q \<in> set (pointers sma). IsFinal q \<longrightarrow>
                 (\<exists>e. edgeFrom (path sma) (1 + int i - Offset q) = Some e \<and>
                      preferred (path sm1 ! Suc i) e)))"
proof -
  let ?b = "beginRune sm"
  have inv: "scanInv n i ?b" using assms(1) by (simp add: scanInv_def beginRune_def)
  have nb: "\<not> foundBestEdge ?b" by (simp add: beginRune_def)
  have bp: "dict ?b = dict sm" "pointers ?b = pointers sm" by (simp_all add: beginRune_def)
  from advanceText_mid[OF inv assms(2) nb, of ch] obtain sma where
    a: "advanceText (int i) ch ?b = Some sma" and mid: "midInv n i sma"
    and ps: "pointers sma = advancePointers (dict sm) ch (pointers sm @ [zeroPointer])"
    and nf: "\<not> foundBestEdge sma"
    using bp by auto
  have len: "length (path sma) = Suc n" using mid by (simp add: midInv_def)
  have srt: "sorted_wrt (\<lambda>p q. Offset q < Offset p) (pointers sma)"
    using descending_advance[OF assms(3), of "dict sm" ch] ps by (simp add: descending_def)
  have rng: "\<forall>q \<in> set (pointers sma). 0 \<le> 1 + int i - Offset q \<and>
               1 + int i - Offset q < int (length (path sma))"
  proof
    fix q assume "q \<in> set (pointers sma)"
    then have "1 \<le> Offset q \<and> Offset q \<le> int i + 1" using mid by (simp add: midInv_def)
    then show "0 \<le> 1 + int i - Offset q \<and> 1 + int i - Offset q < int (length (path sma))"
      using len assms(2) by simp
  qed
  have nb': "foundBestEdge sma \<longrightarrow> (\<forall>q \<in> set (pointers sma). S (bestEdge sma) < 1 + int i - Offset q)"
    using nf by simp
  from dictEdges_select[OF srt rng nb'] nf obtain smd where
    d: "dictEdges (int i) (pointers sma) sma = Some smd" and pd: "path smd = path sma"
    and fd: "foundBestEdge smd \<longleftrightarrow> (\<exists>q \<in> set (pointers sma). IsFinal q)"
    and sel: "foundBestEdge smd \<longrightarrow>
        (\<exists>q \<in> set (pointers sma). IsFinal q \<and>
             edgeFrom (path sma) (1 + int i - Offset q) = Some (bestEdge smd)) \<and>
        (\<forall>q \<in> set (pointers sma). IsFinal q \<longrightarrow>
           (\<exists>e. edgeFrom (path sma) (1 + int i - Offset q) = Some e \<and> preferred (bestEdge smd) e))"
    by auto
  from scanRune_inv[OF assms(1,2), of ch] assms(4,5) obtain sm1 where
    r: "scanRune (int i) ch sm = Some sm1" and inv1: "scanInv n (Suc i) sm1"
    and fl: "\<not> foundSpace sm1" "\<not> foundLatin sm1"
    by auto
  have w: "writeBest (int i) smd = Some sm1"
    using r assms(4,5) by (simp add: scanRune_def Let_def textBranch_def a d)
  have cell: "foundBestEdge smd \<longrightarrow> path sm1 ! Suc i = bestEdge smd"
  proof
    assume f: "foundBestEdge smd"
    have "writeBest (int i) smd =
        Some (smd\<lparr>leftBoundary := int i + 1, path := (path smd)[Suc i := bestEdge smd]\<rparr>)"
      using f len pd assms(2) by (simp add: writeBest_def wr_def nat_add_distrib)
    with w have "path sm1 = (path smd)[Suc i := bestEdge smd]" by auto
    then show "path sm1 ! Suc i = bestEdge smd" using len pd assms(2) by simp
  qed
  show ?thesis
    apply (rule exI[of _ sma], rule exI[of _ sm1], intro conjI impI)
    subgoal by (rule a)
    subgoal by (rule r)
    subgoal by (rule inv1)
    subgoal by (rule fl(2))
    subgoal by (rule fl(1))
    subgoal using sel fd cell by metis
    subgoal using sel fd cell by metis
    done
qed




lemma BuildPath_at:
  assumes "\<not> foundSpace sm0" "i < length line"
  shows "\<exists>sm sm1 sm'. scanLine 0 (take i line) (resetSegmenter line sm0) = Some sm \<and>
           scanInv (length line) i sm \<and> descending (pointers sm) \<and> dict sm = dict sm0 \<and>
           scanRune (int i) (line ! i) sm = Some sm1 \<and>
           scanLine (int (Suc i)) (drop (Suc i) line) sm1 = Some sm' \<and>
           BuildPath line sm0 = Some sm'"
proof -
  let ?n = "length line"
  let ?R = "resetSegmenter line sm0"
  have inv0: "scanInv ?n 0 ?R" by (rule scanInv_reset[OF assms(1)])
  have d0: "descending (pointers ?R)" by (simp add: resetSegmenter_eq descending_def)
  have l0: "0 + length (take i line) \<le> ?n" by simp
  from scanLine_prefix[OF inv0 l0 d0] obtain sm where
    s: "scanLine 0 (take i line) ?R = Some sm" and inv: "scanInv ?n i sm"
    and ds: "descending (pointers sm)" "dict sm = dict sm0"
    using assms(2) by (auto simp: resetSegmenter_eq min_def)
  from scanRune_inv[OF inv assms(2), of "line ! i"] obtain sm1 where
    r: "scanRune (int i) (line ! i) sm = Some sm1" and inv1: "scanInv ?n (Suc i) sm1"
    by blast
  have l1: "Suc i + length (drop (Suc i) line) = ?n" using assms(2) by simp
  from scanLine_inv[OF inv1 l1] obtain sm' where
    l: "scanLine (int (Suc i)) (drop (Suc i) line) sm1 = Some sm'"
    by blast
  have split: "line = take i line @ (line ! i # drop (Suc i) line)"
    using assms(2) by (simp add: id_take_nth_drop[symmetric])
  have li: "int (length (take i line)) = int i" using assms(2) by simp
  have "BuildPath line sm0 = scanLine 0 (take i line @ (line ! i # drop (Suc i) line)) ?R"
    unfolding BuildPath_def using split by simp
  also have "\<dots> = scanLine (int i) (line ! i # drop (Suc i) line) sm"
    by (simp only: scanLine_append s li) simp
  also have "\<dots> = Some sm'"
    using r l by (simp add: add.commute)
  finally show ?thesis using s inv ds r l by blast
qed




lemma edgeFrom_S: "edgeFrom p st = Some e \<Longrightarrow> S e = st"
  by (auto simp: edgeFrom_def split: Option.bind_splits)




subsection \<open>Soundness of the prefix tree\<close>

lemma trieInv_mono: "trieInv W tab \<Longrightarrow> trieInv (W @ [w]) tab"
  unfolding trieInv_def
  apply (intro allI impI)
  subgoal premises prems for r j c child fin
    using prems(1)[rule_format, OF prems(2)]
    by (auto simp: nth_append split: if_splits)
  done




lemma take_Suc_eq:
  assumes "take j xs = take j ys" "j < length xs" "j < length ys" "xs ! j = ys ! j"
  shows "take (Suc j) xs = take (Suc j) ys"
  using assms by (simp add: take_Suc_conv_app_nth)

lemma insertRunes_inv:
  assumes "trieInv W tab" "0 \<le> i" "nat i < length W" "W ! nat i = w" "n = int (length w)"
    "w = pre @ rest" "j = int (length pre)" "rowInv W w (length pre) rowNo"
  shows "trieInv W (insertRunes i n j rest rowNo tab)"
  using assms(1,6,7,8)
proof (induction rest arbitrary: pre j rowNo tab)
  case Nil
  then show ?case by simp
next
  case (Cons ch rest)
  let ?k = "length pre"
  have w: "w = (pre @ [ch]) @ rest" "?k < length w" "w ! ?k = ch"
    using Cons.prems(2) by simp_all
  have j1: "j + 1 = int (length (pre @ [ch]))" using Cons.prems(3) by simp
  show ?case
  proof (cases "tab (PrefixTreeNode rowNo j ch)")
    case None
    let ?tab = "tab(PrefixTreeNode rowNo j ch \<mapsto> PrefixTreePointer i (j + 1 = n))"
    have row: "if j = 0 then rowNo = 0
               else 0 \<le> rowNo \<and> nat rowNo < length W \<and>
                    take (nat j) (W ! nat rowNo) = take (nat j) (W ! nat i)"
      using Cons.prems(3,4) assms(4) by (auto simp: rowInv_def)
    have new: "0 \<le> j \<and> 0 \<le> i \<and> nat i < length W \<and> nat j < length (W ! nat i) \<and>
               (W ! nat i) ! nat j = ch \<and> ((j + 1 = n) \<longleftrightarrow> int (length (W ! nat i)) = j + 1)"
      using assms(2,3,4,5) w Cons.prems(3) by auto
    have inv: "trieInv W ?tab"
      unfolding trieInv_def
    proof (intro allI impI)
      fix r j' c child fin
      assume e: "?tab (PrefixTreeNode r j' c) = Some (PrefixTreePointer child fin)"
      show "0 \<le> j' \<and> 0 \<le> child \<and> nat child < length W \<and>
          nat j' < length (W ! nat child) \<and> (W ! nat child) ! nat j' = c \<and>
          (fin \<longleftrightarrow> int (length (W ! nat child)) = j' + 1) \<and>
          (if j' = 0 then r = 0
           else 0 \<le> r \<and> nat r < length W \<and>
                take (nat j') (W ! nat r) = take (nat j') (W ! nat child))"
      proof (cases "PrefixTreeNode r j' c = PrefixTreeNode rowNo j ch")
        case True
        then have "r = rowNo" "j' = j" "c = ch" "child = i" "fin = (j + 1 = n)"
          using e by simp_all
        then show ?thesis using new row by simp
      next
        case False
        then have "tab (PrefixTreeNode r j' c) = Some (PrefixTreePointer child fin)"
          using e by (auto split: if_splits)
        then show ?thesis using Cons.prems(1) unfolding trieInv_def by blast
      qed
    qed
    have rw: "rowInv W w (length (pre @ [ch])) i"
      using assms(2,3,4) by (simp add: rowInv_def)
    have "trieInv W (insertRunes i n (j + 1) rest i ?tab)"
      by (rule Cons.IH[OF inv w(1) j1 rw])
    then show ?thesis using None by simp
  next
    case (Some ptr)
    obtain child fin where ptr: "ptr = PrefixTreePointer child fin" by (cases ptr)
    from Cons.prems(1) Some ptr have ent:
      "0 \<le> j" "0 \<le> child" "nat child < length W" "nat j < length (W ! nat child)"
      "(W ! nat child) ! nat j = ch"
      "if j = 0 then rowNo = 0
       else 0 \<le> rowNo \<and> nat rowNo < length W \<and>
            take (nat j) (W ! nat rowNo) = take (nat j) (W ! nat child)"
      unfolding trieInv_def by blast+
    have nj: "nat j = ?k" using Cons.prems(3) by simp
    have tk: "take ?k (W ! nat child) = take ?k w"
    proof (cases "?k = 0")
      case True
      then show ?thesis by simp
    next
      case False
      then have "take ?k (W ! nat rowNo) = take ?k (W ! nat child)"
        using ent(6) nj Cons.prems(3) by auto
      moreover have "take ?k (W ! nat rowNo) = take ?k w"
        using Cons.prems(4) False by (simp add: rowInv_def)
      ultimately show ?thesis by simp
    qed
    have "take (Suc ?k) (W ! nat child) = take (Suc ?k) w"
      using tk ent(4,5) w nj by (intro take_Suc_eq) simp_all
    then have rw: "rowInv W w (length (pre @ [ch])) child"
      using ent(2,3) by (simp add: rowInv_def)
    have "trieInv W (insertRunes i n (j + 1) rest child tab)"
      by (rule Cons.IH[OF Cons.prems(1) w(1) j1 rw])
    then show ?thesis using Some ptr by simp
  qed
qed

lemma insertWords_inv:
  assumes "trieInv W tab" "i = int (length W)"
  shows "trieInv (W @ ws) (insertWords i ws tab)"
  using assms
proof (induction ws arbitrary: W i tab)
  case Nil
  then show ?case by simp
next
  case (Cons w ws)
  let ?W = "W @ [w]"
  have m: "trieInv ?W tab" by (rule trieInv_mono[OF Cons.prems(1)])
  have "trieInv ?W (insertRunes i (int (length w)) 0 w 0 tab)"
    using Cons.prems(2)
    by (intro insertRunes_inv[OF m, where pre = "[]" and w = w]) (simp_all add: rowInv_def)
  then have "trieInv (?W @ ws) (insertWords (i + 1) ws (insertRunes i (int (length w)) 0 w 0 tab))"
    using Cons.prems(2) by (intro Cons.IH) simp_all
  then show ?case by simp
qed

lemma MakePrefixTree_inv: "trieInv (sort ws) (MakePrefixTree ws)"
proof -
  have "trieInv [] Map.empty" by (simp add: trieInv_def)
  from insertWords_inv[OF this, of 0 "sort ws"] show ?thesis
    by (simp add: MakePrefixTree_def)
qed




lemma follow_append:
  "follow d p (xs @ ys) = follow d p xs \<bind> (\<lambda>q. follow d q ys)"
  by (induction xs arbitrary: p) (simp_all split: Option.bind_split)

lemma follow_snoc:
  "follow d p (cs @ [c]) = follow d p cs \<bind> movePointer d c"
  by (simp add: follow_append)

lemma movePointer_entry:
  assumes "movePointer d c p = Some q"
  shows "d (PrefixTreeNode (NodeID p) (Offset p) c) = Some (PrefixTreePointer (NodeID q) (IsFinal q)) \<and>
         Offset q = Offset p + 1"
  using assms by (auto simp: movePointer_def split: option.splits PrefixTreePointer.splits)

lemma follow_sound:
  assumes "trieInv W d"
  shows "follow d zeroPointer cs = Some p \<Longrightarrow> cs \<noteq> [] \<Longrightarrow>
     0 \<le> NodeID p \<and> nat (NodeID p) < length W \<and> Offset p = int (length cs) \<and>
     take (length cs) (W ! nat (NodeID p)) = cs \<and> length cs \<le> length (W ! nat (NodeID p)) \<and>
     (IsFinal p \<longleftrightarrow> length (W ! nat (NodeID p)) = length cs)"
proof (induction cs arbitrary: p rule: rev_induct)
  case Nil
  then show ?case by simp
next
  case (snoc c cs)
  from snoc.prems(1) obtain p' where f: "follow d zeroPointer cs = Some p'"
    and m: "movePointer d c p' = Some p"
    by (auto simp: follow_snoc split: Option.bind_splits)
  let ?j = "Offset p'"
  let ?w = "W ! nat (NodeID p)"
  from movePointer_entry[OF m] have
    e: "d (PrefixTreeNode (NodeID p') ?j c) = Some (PrefixTreePointer (NodeID p) (IsFinal p))"
    and o: "Offset p = ?j + 1"
    by simp_all
  from assms e have ent: "0 \<le> ?j" "0 \<le> NodeID p" "nat (NodeID p) < length W"
    "nat ?j < length ?w" "?w ! nat ?j = c" "IsFinal p \<longleftrightarrow> int (length ?w) = ?j + 1"
    "if ?j = 0 then NodeID p' = 0
     else 0 \<le> NodeID p' \<and> nat (NodeID p') < length W \<and>
          take (nat ?j) (W ! nat (NodeID p')) = take (nat ?j) ?w"
    unfolding trieInv_def by blast+
  have j: "?j = int (length cs)" and tk: "take (length cs) ?w = cs"
  proof -
    show j: "?j = int (length cs)"
    proof (cases "cs = []")
      case True
      then show ?thesis using f by (auto simp: zeroPointer_def)
    next
      case False
      then show ?thesis using snoc.IH[OF f] by simp
    qed
    show "take (length cs) ?w = cs"
    proof (cases "cs = []")
      case True
      then show ?thesis by simp
    next
      case False
      then have "take (length cs) (W ! nat (NodeID p')) = cs" using snoc.IH[OF f] by simp
      moreover have "take (length cs) (W ! nat (NodeID p')) = take (length cs) ?w"
        using ent(7) j False by simp
      ultimately show ?thesis by simp
    qed
  qed
  have lt: "length cs < length ?w" using ent(4) j by simp
  have "take (Suc (length cs)) ?w = cs @ [c]"
    using tk lt ent(5) j by (simp add: take_Suc_conv_app_nth)
  then show ?case using ent(2,3,6) o j lt by auto
qed

lemma follow_final_word:
  assumes "follow (MakePrefixTree ws) zeroPointer cs = Some p" "cs \<noteq> []" "IsFinal p"
  shows "cs \<in> set ws \<and> Offset p = int (length cs)"
proof -
  let ?W = "sort ws"
  from follow_sound[OF MakePrefixTree_inv assms(1,2)] assms(3) have
    n: "nat (NodeID p) < length ?W" and o: "Offset p = int (length cs)"
    and t: "take (length cs) (?W ! nat (NodeID p)) = cs"
    and l: "length (?W ! nat (NodeID p)) = length cs"
    by simp_all
  from t l have "?W ! nat (NodeID p) = cs" by simp
  then have "cs \<in> set ?W" using n by (metis nth_mem)
  then show ?thesis using o by simp
qed

lemma tracked_advance:
  assumes "tracked d ps" "\<not> IsLatin ch" "\<not> IsSpace ch"
  shows "tracked d (advancePointers d ch (ps @ [zeroPointer]))"
  unfolding tracked_def
proof
  fix q assume "q \<in> set (advancePointers d ch (ps @ [zeroPointer]))"
  then obtain p where p: "p \<in> set (ps @ [zeroPointer])" "movePointer d ch p = Some q"
    by (auto simp: advancePointers_eq set_map_filter)
  have "\<exists>cs. (\<forall>c \<in> set cs. \<not> IsLatin c \<and> \<not> IsSpace c) \<and> follow d zeroPointer cs = Some p"
  proof (cases "p = zeroPointer")
    case True
    then have "follow d zeroPointer [] = Some p" by simp
    then show ?thesis by (intro exI[of _ "[]"]) simp
  next
    case False
    then have "p \<in> set ps" using p(1) by simp
    then show ?thesis using assms(1) unfolding tracked_def by blast
  qed
  then obtain cs where cs: "\<forall>c \<in> set cs. \<not> IsLatin c \<and> \<not> IsSpace c"
    "follow d zeroPointer cs = Some p"
    by blast
  have "follow d zeroPointer (cs @ [ch]) = Some q"
    using cs(2) p(2) by (simp add: follow_snoc)
  moreover have "\<forall>c \<in> set (cs @ [ch]). \<not> IsLatin c \<and> \<not> IsSpace c"
    using cs(1) assms(2,3) by simp
  ultimately show "\<exists>cs. cs \<noteq> [] \<and> (\<forall>c \<in> set cs. \<not> IsLatin c \<and> \<not> IsSpace c) \<and>
                        follow d zeroPointer cs = Some q"
    by (intro exI[of _ "cs @ [ch]"]) simp
qed




lemma scanLine_tracked:
  assumes "scanInv n i sm" "i + length rest \<le> n" "tracked (dict sm) (pointers sm)"
  shows "\<exists>sm'. scanLine (int i) rest sm = Some sm' \<and> tracked (dict sm') (pointers sm') \<and>
           dict sm' = dict sm"
  using assms
proof (induction rest arbitrary: i sm)
  case Nil
  then show ?case by simp
next
  case (Cons ch rest)
  then have lt: "i < n" by simp
  from scanRune_inv[OF Cons.prems(1) lt, of ch] obtain sm1 where
    r: "scanRune (int i) ch sm = Some sm1" and inv1: "scanInv n (Suc i) sm1"
    and eq1: "dict sm1 = dict sm"
    and ps: "pointers sm1 = (if IsLatin ch \<or> IsSpace ch then pointers sm
                           else advancePointers (dict sm) ch (pointers sm @ [zeroPointer]))"
    by blast
  have t1: "tracked (dict sm1) (pointers sm1)"
    using ps eq1 Cons.prems(3) tracked_advance[of "dict sm" "pointers sm" ch]
    by (simp split: if_splits)
  have len: "Suc i + length rest \<le> n" using Cons.prems(2) by simp
  from Cons.IH[OF inv1 len t1] obtain sm' where
    l: "scanLine (int (Suc i)) rest sm1 = Some sm'"
    and eq': "tracked (dict sm') (pointers sm')" "dict sm' = dict sm1"
    by blast
  have i1: "int i + 1 = int (Suc i)" by simp
  have "scanLine (int i) (ch # rest) sm = Some sm'"
    using r l by (simp only: scanLine.simps i1) simp
  then show ?case using eq1 eq' by simp
qed

subsection \<open>Iterations that do not read the trie\<close>

lemma flushSpace_dict:
  "flushSpace i (sm\<lparr>dict := d\<rparr>) = map_option (\<lambda>s. s\<lparr>dict := d\<rparr>) (flushSpace i sm)"
  by (cases sm) (simp add: flushSpace_def map_option_bind comp_def)

lemma flushLatin_dict:
  "flushLatin i (sm\<lparr>dict := d\<rparr>) = map_option (\<lambda>s. s\<lparr>dict := d\<rparr>) (flushLatin i sm)"
  by (cases sm) (simp add: flushLatin_def map_option_bind comp_def)

lemma latinBranch_dict:
  "latinBranch i (sm\<lparr>dict := d\<rparr>) = map_option (\<lambda>s. s\<lparr>dict := d\<rparr>) (latinBranch i sm)"
proof (cases "flushSpace i sm")
  case None
  then show ?thesis by (simp add: latinBranch_def flushSpace_dict)
next
  case (Some a)
  show ?thesis
  proof (cases "foundLatin a")
    case True
    show ?thesis
    proof (cases "edgeFrom (path a) (startLatin a)")
      case None
      then show ?thesis using True Some
        by (cases a) (simp add: latinBranch_def flushSpace_dict Let_def map_option_bind comp_def)
    next
      case (Some e)
      then show ?thesis using True \<open>flushSpace i sm = Some a\<close>
        by (cases a) (simp add: latinBranch_def flushSpace_dict Let_def map_option_bind comp_def)
    qed
  next
    case False
    show ?thesis
    proof (cases "edgeFrom (path a) i")
      case None
      then show ?thesis using False Some
        by (cases a) (simp add: latinBranch_def flushSpace_dict Let_def map_option_bind comp_def)
    next
      case (Some e)
      then show ?thesis using False \<open>flushSpace i sm = Some a\<close>
        by (cases a) (simp add: latinBranch_def flushSpace_dict Let_def map_option_bind comp_def)
    qed
  qed
qed

lemma spaceBranch_dict:
  "spaceBranch i (sm\<lparr>dict := d\<rparr>) = map_option (\<lambda>s. s\<lparr>dict := d\<rparr>) (spaceBranch i sm)"
proof (cases "flushLatin i sm")
  case None
  then show ?thesis by (simp add: spaceBranch_def flushLatin_dict)
next
  case (Some a)
  show ?thesis
  proof (cases "foundSpace a")
    case True
    show ?thesis
    proof (cases "edgeFrom (path a) (startSpace a)")
      case None
      then show ?thesis using True Some
        by (cases a) (simp add: spaceBranch_def flushLatin_dict Let_def map_option_bind comp_def)
    next
      case (Some e)
      then show ?thesis using True \<open>flushLatin i sm = Some a\<close>
        by (cases a) (simp add: spaceBranch_def flushLatin_dict Let_def map_option_bind comp_def)
    qed
  next
    case False
    show ?thesis
    proof (cases "edgeFrom (path a) i")
      case None
      then show ?thesis using False Some
        by (cases a) (simp add: spaceBranch_def flushLatin_dict Let_def map_option_bind comp_def)
    next
      case (Some e)
      then show ?thesis using False \<open>flushLatin i sm = Some a\<close>
        by (cases a) (simp add: spaceBranch_def flushLatin_dict Let_def map_option_bind comp_def)
    qed
  qed
qed

lemma writeBest_dict:
  "writeBest i (sm\<lparr>dict := d\<rparr>) = map_option (\<lambda>s. s\<lparr>dict := d\<rparr>) (writeBest i sm)"
proof (cases "foundBestEdge sm")
  case True
  then show ?thesis
    by (cases sm) (simp add: writeBest_def wr_def)
next
  case False
  then show ?thesis
    by (cases sm) (simp add: writeBest_def wr_def rd_def)
qed

lemma scanRune_dict:
  assumes "IsLatin ch \<or> IsSpace ch"
  shows "scanRune i ch (sm\<lparr>dict := d\<rparr>) = map_option (\<lambda>s. s\<lparr>dict := d\<rparr>) (scanRune i ch sm)"
proof -
  have b: "beginRune (sm\<lparr>dict := d\<rparr>) = (beginRune sm)\<lparr>dict := d\<rparr>"
    by (simp add: beginRune_def)
  show ?thesis
  proof (cases "IsLatin ch")
    case True
    then show ?thesis
      by (cases "latinBranch i (beginRune sm)")
         (simp_all add: scanRune_def Let_def b latinBranch_dict writeBest_dict)
  next
    case False
    with assms have "IsSpace ch" by simp
    then show ?thesis using False
      by (cases "spaceBranch i (beginRune sm)")
         (simp_all add: scanRune_def Let_def b spaceBranch_dict writeBest_dict)
  qed
qed




lemma advance_follow:
  assumes "tracked d ps" "q \<in> set (advancePointers d ch (ps @ [zeroPointer]))"
  shows "\<exists>cs. (\<forall>c \<in> set cs. \<not> IsLatin c \<and> \<not> IsSpace c) \<and>
              follow d zeroPointer (cs @ [ch]) = Some q"
proof -
  from assms(2) obtain p where p: "p \<in> set (ps @ [zeroPointer])" "movePointer d ch p = Some q"
    by (auto simp: advancePointers_eq set_map_filter)
  have "\<exists>cs. (\<forall>c \<in> set cs. \<not> IsLatin c \<and> \<not> IsSpace c) \<and> follow d zeroPointer cs = Some p"
  proof (cases "p = zeroPointer")
    case True
    then have "follow d zeroPointer [] = Some p" by simp
    then show ?thesis by (intro exI[of _ "[]"]) simp
  next
    case False
    then have "p \<in> set ps" using p(1) by simp
    then show ?thesis using assms(1) unfolding tracked_def by blast
  qed
  then obtain cs where cs: "\<forall>c \<in> set cs. \<not> IsLatin c \<and> \<not> IsSpace c"
    "follow d zeroPointer cs = Some p"
    by blast
  have "follow d zeroPointer (cs @ [ch]) = Some q"
    using cs(2) p(2) by (simp add: follow_snoc)
  then show ?thesis using cs(1) by blast
qed

lemma BuildPath_at_tracked:
  assumes "i < length line"
  shows "\<exists>sm. scanLine 0 (take i line) (resetSegmenter line (newSegmenter d)) = Some sm \<and>
           scanInv (length line) i sm \<and> dict sm = d \<and> tracked d (pointers sm)"
proof -
  let ?R = "resetSegmenter line (newSegmenter d)"
  have nf: "\<not> foundSpace (newSegmenter d)" by (simp add: newSegmenter_def)
  from BuildPath_at[OF nf assms] obtain sm where
    s: "scanLine 0 (take i line) ?R = Some sm" and inv: "scanInv (length line) i sm"
    and ds: "dict sm = dict (newSegmenter d)"
    by blast
  have inv0: "scanInv (length line) 0 ?R" by (rule scanInv_reset[OF nf])
  have t0: "tracked (dict ?R) (pointers ?R)" by (simp add: resetSegmenter_eq tracked_def)
  have l0: "0 + length (take i line) \<le> length line" by simp
  from scanLine_tracked[OF inv0 l0 t0] s have "tracked (dict sm) (pointers sm)"
    by auto
  then show ?thesis using s inv ds by (simp add: newSegmenter_def)
qed

section \<open>Claims\<close>

text \<open>
  C1. For every trie \<open>T\<close> and every line \<open>L\<close>, \<open>segment\<close> returns, and the
  concatenation, in order, of the tokens it returns is \<open>L\<close> itself.
\<close>

theorem segment_concat:
  "\<exists>toks. segment L T = Some toks \<and> concat toks = L"
proof -
  have "\<not> foundSpace (newSegmenter T)" by (simp add: newSegmenter_def)
  from Segment_ok[OF this, of L] show ?thesis
    by (auto simp: segment_def)
qed

text \<open>
  C4. After \<open>BuildPath\<close> has finished on a line of \<open>N\<close> runes, every cell \<open>i\<close> in
  \<open>1..N\<close> of the edge array has \<open>E[i].S < i\<close> and
  \<open>E[E[i].S].WordCount + 1 = E[i].WordCount\<close>.
\<close>

theorem path_linked:
  "\<exists>sm. BuildPath L (newSegmenter T) = Some sm \<and> length (path sm) = length L + 1 \<and>
     (\<forall>i. 1 \<le> i \<and> i \<le> length L \<longrightarrow>
        0 \<le> S (path sm ! i) \<and> S (path sm ! i) < int i \<and>
        WordCount (path sm ! nat (S (path sm ! i))) + 1 = WordCount (path sm ! i))"
proof -
  have "\<not> foundSpace (newSegmenter T)" by (simp add: newSegmenter_def)
  from BuildPath_inv[OF this, of L] obtain sm where
    b: "BuildPath L (newSegmenter T) = Some sm" and inv: "scanInv (length L) (length L) sm"
    by blast
  from inv have "length (path sm) = length L + 1" "linked (length L) (path sm)"
    by (simp_all add: scanInv_def)
  then show ?thesis using b unfolding linked_def by auto
qed

theorem path_linked_witness:
  "\<exists>sm. BuildPath [97, 98, 32, 3585] (newSegmenter (MakePrefixTree [[3585]])) = Some sm \<and>
     S (path sm ! 3) = 2 \<and> WordCount (path sm ! 2) + 1 = WordCount (path sm ! 3)"
proof -
  from path_linked[of "[97, 98, 32, 3585]" "MakePrefixTree [[3585]]"] obtain sm where
    b: "BuildPath [97, 98, 32, 3585] (newSegmenter (MakePrefixTree [[3585]])) = Some sm"
    and a: "\<forall>i. 1 \<le> i \<and> i \<le> length [97, 98, 32, 3585::int] \<longrightarrow>
        0 \<le> S (path sm ! i) \<and> S (path sm ! i) < int i \<and>
        WordCount (path sm ! nat (S (path sm ! i))) + 1 = WordCount (path sm ! i)"
    by blast
  have e: "map_option path (BuildPath [97, 98, 32, 3585] (newSegmenter (MakePrefixTree [[3585]]))) =
      Some [\<lparr>S = 0, WordCount = 0, UnkCount = 0\<rparr>, \<lparr>S = 0, WordCount = 1, UnkCount = 1\<rparr>,
            \<lparr>S = 0, WordCount = 1, UnkCount = 0\<rparr>, \<lparr>S = 2, WordCount = 2, UnkCount = 0\<rparr>,
            \<lparr>S = 3, WordCount = 3, UnkCount = 0\<rparr>]"
    by code_simp
  from a[rule_format, of 3] have "WordCount (path sm ! nat (S (path sm ! 3))) + 1 = WordCount (path sm ! 3)"
    by simp
  moreover have "S (path sm ! 3) = 2" using b e by simp
  ultimately show ?thesis using b by simp
qed

text \<open>
  C5. For every trie \<open>T\<close> and line \<open>L\<close> of \<open>N\<close> runes, the number of tokens that
  \<open>segment\<close> returns is \<open>E[N].WordCount\<close>, the word count of the last cell of the
  edge array built for \<open>L\<close>.
\<close>

theorem segment_length:
  "\<exists>toks sm. BuildPath L (newSegmenter T) = Some sm \<and> segment L T = Some toks \<and>
     length (path sm) = length L + 1 \<and> int (length toks) = WordCount (path sm ! length L)"
proof -
  have "\<not> foundSpace (newSegmenter T)" by (simp add: newSegmenter_def)
  from Segment_ok[OF this, of L] show ?thesis
    by (auto simp: segment_def scanInv_def)
qed

text \<open>
  C8. For every trie \<open>T\<close>, \<open>segment\<close> on the empty line returns the empty token
  sequence, and \<open>segment\<close> fails on no line \<open>L\<close>: no slice access of \<open>BuildPath\<close> or
  \<open>Segment\<close> is out of range.
\<close>

theorem segment_total:
  "segment [] T = Some [] \<and> segment L T \<noteq> None"
proof -
  have nf: "\<not> foundSpace (newSegmenter T)" by (simp add: newSegmenter_def)
  from Segment_ok[OF nf, of "[]"] obtain toks sm where
    s: "Segment [] (newSegmenter T) = Some (toks, sm)" and c: "concat toks = []" "[] \<notin> set toks"
    by blast
  have "toks = []" using c by (cases toks) auto
  then have "segment [] T = Some []"
    using s by (simp add: segment_def)
  moreover from Segment_ok[OF nf, of L] have "segment L T \<noteq> None"
    by (auto simp: segment_def)
  ultimately show ?thesis by simp
qed

text \<open>
  C6. With the dictionary of the three Thai words U+0E01 U+0E32, U+0E01 U+0E32 U+0E41
  U+0E1F and U+0E41 U+0E1F, the line U+0E01 U+0E32 U+0E41 U+0E1F is returned as one
  token. Both partitions have no unknown: cell 2 of the edge array is the first word
  (one word, no unknown), and the last cell is the edge from 0 with one word, chosen
  over the edge from 2 with two words.
\<close>

theorem segment_kafae:
  "segment [3585, 3634, 3649, 3615]
     (MakePrefixTree [[3585, 3634], [3585, 3634, 3649, 3615], [3649, 3615]]) =
   Some [[3585, 3634, 3649, 3615]] \<and>
   map_option path (BuildPath [3585, 3634, 3649, 3615]
     (newSegmenter (MakePrefixTree [[3585, 3634], [3585, 3634, 3649, 3615], [3649, 3615]]))) =
   Some [\<lparr>S = 0, WordCount = 0, UnkCount = 0\<rparr>, \<lparr>S = 0, WordCount = 1, UnkCount = 1\<rparr>,
         \<lparr>S = 0, WordCount = 1, UnkCount = 0\<rparr>, \<lparr>S = 2, WordCount = 2, UnkCount = 1\<rparr>,
         \<lparr>S = 0, WordCount = 1, UnkCount = 0\<rparr>]"
  by code_simp


text \<open>
  C2 (as stated). With the dictionary \<open>{"AB", "AC", "D"}\<close> and the line \<open>"ABDAC"\<close>,
  \<open>segment\<close> does not return \<open>["AB", "D", "AC"]\<close>.
\<close>

theorem segment_ABDAC_counterexample:
  "segment [65, 66, 68, 65, 67] (MakePrefixTree [[65, 66], [65, 67], [68]]) \<noteq>
   Some [[65, 66], [68], [65, 67]]"
  by code_simp

text \<open>
  C2 (amended). With the dictionary \<open>{"AB", "AC", "D"}\<close> and the line \<open>"ABDAC"\<close>,
  \<open>segment\<close> returns the single token \<open>"ABDAC"\<close>: all five runes are Latin letters,
  so the line is one Latin run and the trie is never consulted.
\<close>

theorem segment_ABDAC:
  "segment [65, 66, 68, 65, 67] (MakePrefixTree [[65, 66], [65, 67], [68]]) =
   Some [[65, 66, 68, 65, 67]] \<and>
   list_all IsLatin [65, 66, 68, 65, 67] \<and>
   segment [65, 66, 68, 65, 67] Map.empty = Some [[65, 66, 68, 65, 67]]"
  by code_simp

text \<open>
  C7. For the empty trie, built from the empty word list, and every non-empty line
  whose runes are neither Latin nor space, \<open>segment\<close> returns exactly one token, the
  whole line, and the last cell of the edge array counts it as one word and one
  unknown.
\<close>

theorem segment_unknown_run:
  assumes "L \<noteq> []" "\<forall>c \<in> set L. \<not> IsLatin c \<and> \<not> IsSpace c"
  shows "\<exists>sm. BuildPath L (newSegmenter (MakePrefixTree [])) = Some sm \<and>
           segment L (MakePrefixTree []) = Some [L] \<and>
           path sm ! length L = \<lparr>S = 0, WordCount = 1, UnkCount = 1\<rparr>"
proof -
  from BuildPath_unk[OF assms(2)] obtain sm where
    b: "BuildPath L (newSegmenter Map.empty) = Some sm" and u: "unkInv (length L) (length L) sm"
    by blast
  have e: "path sm ! length L = \<lparr>S = 0, WordCount = 1, UnkCount = 1\<rparr>"
    using u assms(1) by (simp add: unkInv_def)
  have "\<not> foundSpace (newSegmenter Map.empty)" by (simp add: newSegmenter_def)
  from Segment_ok[OF this, of L] b obtain toks where
    s: "Segment L (newSegmenter Map.empty) = Some (toks, sm)" and c: "concat toks = L"
    and l: "int (length toks) = WordCount (path sm ! length L)"
    by auto
  from l e have "length toks = 1" by simp
  then obtain t where "toks = [t]" by (cases toks) auto
  with c have "toks = [L]" by simp
  with s b e show ?thesis by (simp add: segment_def MakePrefixTree_Nil)
qed

theorem segment_unknown_run_witness:
  "segment [3585, 3586, 3588] (MakePrefixTree []) = Some [[3585, 3586, 3588]]"
proof -
  have "[3585, 3586, 3588] \<noteq> ([]::rune list)" by simp
  moreover have "\<forall>c \<in> set [3585, 3586, 3588]. \<not> IsLatin c \<and> \<not> IsSpace c"
    by (simp add: IsLatin_def IsSpace_def)
  ultimately show ?thesis using segment_unknown_run[of "[3585, 3586, 3588]"] by blast
qed

text \<open>
  C9. Reusing one \<open>Segmenter\<close> for successive lines is the same as constructing a new
  one for every line: for every dictionary and every sequence of lines, all calls on
  the reused \<open>Segmenter\<close> return, and each returns the tokens that a new \<open>Segmenter\<close>
  returns on that line. The flags \<open>foundSpace\<close> and \<open>foundLatin\<close> that live across
  iterations are \<open>false\<close> again at the end, although the reset block of \<open>BuildPath\<close>
  leaves \<open>foundSpace\<close> alone.
\<close>

theorem segmenter_reuse:
  "\<exists>results sm. SegmentReused ls (newSegmenter d) = Some (results, sm) \<and>
     SegmentFresh ls d = Some results \<and> \<not> foundSpace sm \<and> \<not> foundLatin sm"
proof -
  have "\<not> foundSpace (newSegmenter d)" "\<not> foundLatin (newSegmenter d)"
    by (simp_all add: newSegmenter_def)
  from SegmentReused_fresh[OF this, of ls] show ?thesis
    by (auto simp: newSegmenter_def)
qed

text \<open>
  C3 (as stated). Dictionary U+0E01, U+0E01 U+0E02, U+0E02 U+0E04, U+0E04 and line
  U+0E01 U+0E02 U+0E04. At position 2 the live pointers of depth 2 and depth 1 are
  both final; their candidate edges start at 1 and at 2 and both count two words and
  no unknown. The cell written to the edge array starts at 2: it is the candidate
  of the pointer of smallest depth, not of greatest depth.
\<close>

theorem tie_break_counterexample:
  "candidatesAt (MakePrefixTree [[3585], [3585, 3586], [3586, 3588], [3588]])
     [3585, 3586, 3588] 2 =
   Some [(2, Some \<lparr>S = 1, WordCount = 2, UnkCount = 0\<rparr>),
         (1, Some \<lparr>S = 2, WordCount = 2, UnkCount = 0\<rparr>)] \<and>
   map_option path (BuildPath [3585, 3586, 3588]
     (newSegmenter (MakePrefixTree [[3585], [3585, 3586], [3586, 3588], [3588]]))) =
   Some [\<lparr>S = 0, WordCount = 0, UnkCount = 0\<rparr>, \<lparr>S = 0, WordCount = 1, UnkCount = 0\<rparr>,
         \<lparr>S = 0, WordCount = 1, UnkCount = 0\<rparr>, \<lparr>S = 2, WordCount = 2, UnkCount = 0\<rparr>] \<and>
   segment [3585, 3586, 3588] (MakePrefixTree [[3585], [3585, 3586], [3586, 3588], [3588]]) =
   Some [[3585, 3586], [3588]]"
  by code_simp

text \<open>
  C3 (amended). At any position \<open>i\<close> whose rune is neither Latin nor space, if some
  live pointer is final then the cell \<open>i + 1\<close> of the finished edge array is the
  candidate edge of a final pointer \<open>pm\<close>; no candidate has fewer unknowns, or as many
  unknowns and fewer words; and among the candidates with the same \<open>UnkCount\<close> and the
  same \<open>WordCount\<close> as the cell, \<open>pm\<close> is the pointer of smallest depth, so the cell
  is the shortest match (greatest start index).
\<close>

theorem tie_break_shortest:
  assumes "i < length line" "\<not> IsLatin (line ! i)" "\<not> IsSpace (line ! i)"
  shows "\<exists>sm sma sm'.
      scanLine 0 (take i line) (resetSegmenter line (newSegmenter d)) = Some sm \<and>
      advanceText (int i) (line ! i) (beginRune sm) = Some sma \<and>
      BuildPath line (newSegmenter d) = Some sm' \<and>
      ((\<exists>q \<in> set (pointers sma). IsFinal q) \<longrightarrow>
         (\<exists>pm \<in> set (pointers sma). IsFinal pm \<and>
            edgeFrom (path sma) (1 + int i - Offset pm) = Some (path sm' ! Suc i) \<and>
            (\<forall>q \<in> set (pointers sma). IsFinal q \<longrightarrow>
               (\<exists>e. edgeFrom (path sma) (1 + int i - Offset q) = Some e \<and>
                    preferred (path sm' ! Suc i) e \<and>
                    (UnkCount e = UnkCount (path sm' ! Suc i) \<and>
                     WordCount e = WordCount (path sm' ! Suc i) \<longrightarrow>
                     Offset pm \<le> Offset q)))))"
proof -
  have nf: "\<not> foundSpace (newSegmenter d)" by (simp add: newSegmenter_def)
  from BuildPath_at[OF nf assms(1)] obtain sm sm1 sm' where
    s: "scanLine 0 (take i line) (resetSegmenter line (newSegmenter d)) = Some sm"
    and inv: "scanInv (length line) i sm" and ds: "descending (pointers sm)"
    and r: "scanRune (int i) (line ! i) sm = Some sm1"
    and l: "scanLine (int (Suc i)) (drop (Suc i) line) sm1 = Some sm'"
    and b: "BuildPath line (newSegmenter d) = Some sm'"
    by blast
  from scanRune_text_select[OF inv assms(1) ds assms(2,3)] r obtain sma where
    a: "advanceText (int i) (line ! i) (beginRune sm) = Some sma"
    and fl: "\<not> foundLatin sm1" "\<not> foundSpace sm1"
    and sel: "(\<exists>q \<in> set (pointers sma). IsFinal q) \<longrightarrow>
              (\<exists>pm \<in> set (pointers sma). IsFinal pm \<and>
                 edgeFrom (path sma) (1 + int i - Offset pm) = Some (path sm1 ! Suc i)) \<and>
              (\<forall>q \<in> set (pointers sma). IsFinal q \<longrightarrow>
                 (\<exists>e. edgeFrom (path sma) (1 + int i - Offset q) = Some e \<and>
                      preferred (path sm1 ! Suc i) e))"
    by auto
  have cell: "path sm' ! Suc i = path sm1 ! Suc i"
    using fl by (intro scanLine_path[OF l]) simp_all
  have "(\<exists>q \<in> set (pointers sma). IsFinal q) \<longrightarrow>
         (\<exists>pm \<in> set (pointers sma). IsFinal pm \<and>
            edgeFrom (path sma) (1 + int i - Offset pm) = Some (path sm' ! Suc i) \<and>
            (\<forall>q \<in> set (pointers sma). IsFinal q \<longrightarrow>
               (\<exists>e. edgeFrom (path sma) (1 + int i - Offset q) = Some e \<and>
                    preferred (path sm' ! Suc i) e \<and>
                    (UnkCount e = UnkCount (path sm' ! Suc i) \<and>
                     WordCount e = WordCount (path sm' ! Suc i) \<longrightarrow>
                     Offset pm \<le> Offset q))))"
  proof
    assume "\<exists>q \<in> set (pointers sma). IsFinal q"
    with sel obtain pm where pm: "pm \<in> set (pointers sma)" "IsFinal pm"
      "edgeFrom (path sma) (1 + int i - Offset pm) = Some (path sm1 ! Suc i)"
      and all: "\<forall>q \<in> set (pointers sma). IsFinal q \<longrightarrow>
                 (\<exists>e. edgeFrom (path sma) (1 + int i - Offset q) = Some e \<and>
                      preferred (path sm1 ! Suc i) e)"
      by blast
    have spm: "S (path sm1 ! Suc i) = 1 + int i - Offset pm"
      by (rule edgeFrom_S[OF pm(3)])
    have "\<forall>q \<in> set (pointers sma). IsFinal q \<longrightarrow>
               (\<exists>e. edgeFrom (path sma) (1 + int i - Offset q) = Some e \<and>
                    preferred (path sm1 ! Suc i) e \<and>
                    (UnkCount e = UnkCount (path sm1 ! Suc i) \<and>
                     WordCount e = WordCount (path sm1 ! Suc i) \<longrightarrow>
                     Offset pm \<le> Offset q))"
    proof (intro ballI impI)
      fix q assume "q \<in> set (pointers sma)" "IsFinal q"
      with all obtain e where e: "edgeFrom (path sma) (1 + int i - Offset q) = Some e"
        "preferred (path sm1 ! Suc i) e"
        by blast
      have "S e = 1 + int i - Offset q" by (rule edgeFrom_S[OF e(1)])
      then have "UnkCount e = UnkCount (path sm1 ! Suc i) \<and>
                 WordCount e = WordCount (path sm1 ! Suc i) \<longrightarrow> Offset pm \<le> Offset q"
        using e(2) spm unfolding preferred_def by linarith
      then show "\<exists>e. edgeFrom (path sma) (1 + int i - Offset q) = Some e \<and>
                    preferred (path sm1 ! Suc i) e \<and>
                    (UnkCount e = UnkCount (path sm1 ! Suc i) \<and>
                     WordCount e = WordCount (path sm1 ! Suc i) \<longrightarrow>
                     Offset pm \<le> Offset q)"
        using e by blast
    qed
    then show "\<exists>pm \<in> set (pointers sma). IsFinal pm \<and>
            edgeFrom (path sma) (1 + int i - Offset pm) = Some (path sm' ! Suc i) \<and>
            (\<forall>q \<in> set (pointers sma). IsFinal q \<longrightarrow>
               (\<exists>e. edgeFrom (path sma) (1 + int i - Offset q) = Some e \<and>
                    preferred (path sm' ! Suc i) e \<and>
                    (UnkCount e = UnkCount (path sm' ! Suc i) \<and>
                     WordCount e = WordCount (path sm' ! Suc i) \<longrightarrow>
                     Offset pm \<le> Offset q)))"
      unfolding cell using pm by blast
  qed
  then show ?thesis using s a b by blast
qed




theorem tie_break_shortest_witness:
  "\<exists>sm sma sm' pm.
      scanLine 0 (take 2 [3585, 3586, 3588])
        (resetSegmenter [3585, 3586, 3588]
          (newSegmenter (MakePrefixTree [[3585], [3585, 3586], [3586, 3588], [3588]]))) = Some sm \<and>
      advanceText 2 3588 (beginRune sm) = Some sma \<and>
      BuildPath [3585, 3586, 3588]
        (newSegmenter (MakePrefixTree [[3585], [3585, 3586], [3586, 3588], [3588]])) = Some sm' \<and>
      pm \<in> set (pointers sma) \<and> IsFinal pm \<and>
      edgeFrom (path sma) (1 + 2 - Offset pm) = Some (path sm' ! 3) \<and>
      path sm' ! 3 = \<lparr>S = 2, WordCount = 2, UnkCount = 0\<rparr>"
proof -
  let ?L = "[3585, 3586, 3588] :: rune list"
  let ?D = "MakePrefixTree [[3585], [3585, 3586], [3586, 3588], [3588]]"
  have h: "2 < length ?L" "\<not> IsLatin (?L ! 2)" "\<not> IsSpace (?L ! 2)"
    by (simp_all add: IsLatin_def IsSpace_def)
  from tie_break_shortest[OF h, of ?D] obtain sm sma sm' where
    s: "scanLine 0 (take 2 ?L) (resetSegmenter ?L (newSegmenter ?D)) = Some sm"
    and a: "advanceText (int 2) (?L ! 2) (beginRune sm) = Some sma"
    and b: "BuildPath ?L (newSegmenter ?D) = Some sm'"
    and imp: "(\<exists>q \<in> set (pointers sma). IsFinal q) \<longrightarrow>
         (\<exists>pm \<in> set (pointers sma). IsFinal pm \<and>
            edgeFrom (path sma) (1 + int 2 - Offset pm) = Some (path sm' ! Suc 2))"
    by blast
  have c: "candidatesAt ?D ?L 2 =
      Some [(2, Some \<lparr>S = 1, WordCount = 2, UnkCount = 0\<rparr>),
            (1, Some \<lparr>S = 2, WordCount = 2, UnkCount = 0\<rparr>)]"
    by code_simp
  have "Some (map (\<lambda>p. (Offset p, edgeFrom (path sma) (1 + int 2 - Offset p)))
                    (filter IsFinal (pointers sma))) =
        Some [(2, Some \<lparr>S = 1, WordCount = 2, UnkCount = 0\<rparr>),
            (1, Some \<lparr>S = 2, WordCount = 2, UnkCount = 0\<rparr>)]"
    using c unfolding candidatesAt_def by (simp only: s a Option.bind.bind_lunit)
  then have "filter IsFinal (pointers sma) \<noteq> []" by auto
  then have "\<exists>q \<in> set (pointers sma). IsFinal q"
    by (simp add: filter_empty_conv)
  with imp obtain pm where pm: "pm \<in> set (pointers sma)" "IsFinal pm"
    "edgeFrom (path sma) (1 + int 2 - Offset pm) = Some (path sm' ! Suc 2)"
    by blast
  have e: "map_option path (BuildPath ?L (newSegmenter ?D)) =
      Some [\<lparr>S = 0, WordCount = 0, UnkCount = 0\<rparr>, \<lparr>S = 0, WordCount = 1, UnkCount = 0\<rparr>,
            \<lparr>S = 0, WordCount = 1, UnkCount = 0\<rparr>, \<lparr>S = 2, WordCount = 2, UnkCount = 0\<rparr>]"
    by code_simp
  have cell: "path sm' ! 3 = \<lparr>S = 2, WordCount = 2, UnkCount = 0\<rparr>"
    using e b by simp
  have e3: "edgeFrom (path sma) (1 + 2 - Offset pm) = Some (path sm' ! 3)"
    using pm(3) by (simp add: numeral_3_eq_3)
  have a': "advanceText 2 3588 (beginRune sm) = Some sma"
    using a by simp
  show ?thesis
    using s a' b pm(1,2) e3 cell by blast
qed




text \<open>
  What the scan does guarantee about dictionary matches, for every word list and every
  line. Trie lookups happen only at runes that are neither Latin nor space: at a
  Latin or space rune the iteration leaves the live pointers untouched and does the
  same whatever the trie is. At any other rune, every final pointer comes from a word
  of the list that has no Latin and no space rune, that the pointer followed from the
  root, that ends with the current rune and whose length is the pointer's \<open>Offset\<close>.
\<close>

lemma lookups_at_text_only:
  assumes "i < length line"
  shows "\<exists>sm sm1.
      scanLine 0 (take i line) (resetSegmenter line (newSegmenter (MakePrefixTree ws))) = Some sm \<and>
      scanRune (int i) (line ! i) sm = Some sm1 \<and>
      (IsLatin (line ! i) \<or> IsSpace (line ! i) \<longrightarrow>
         pointers sm1 = pointers sm \<and>
         (\<forall>d. scanRune (int i) (line ! i) (sm\<lparr>dict := d\<rparr>) = Some (sm1\<lparr>dict := d\<rparr>))) \<and>
      (\<not> IsLatin (line ! i) \<and> \<not> IsSpace (line ! i) \<longrightarrow>
         (\<exists>sma. advanceText (int i) (line ! i) (beginRune sm) = Some sma \<and>
            (\<forall>p \<in> set (pointers sma). IsFinal p \<longrightarrow>
               (\<exists>w \<in> set ws. follow (MakePrefixTree ws) zeroPointer w = Some p \<and>
                  (\<forall>c \<in> set w. \<not> IsLatin c \<and> \<not> IsSpace c) \<and>
                  last w = line ! i \<and> Offset p = int (length w) \<and>
                  0 \<le> 1 + int i - Offset p))))"
proof -
  let ?d = "MakePrefixTree ws"
  let ?ch = "line ! i"
  from BuildPath_at_tracked[OF assms, of ?d] obtain sm where
    s: "scanLine 0 (take i line) (resetSegmenter line (newSegmenter ?d)) = Some sm"
    and inv: "scanInv (length line) i sm" and ds: "dict sm = ?d" and tr: "tracked ?d (pointers sm)"
    by blast
  from scanRune_inv[OF inv assms, of ?ch] obtain sm1 where
    r: "scanRune (int i) ?ch sm = Some sm1"
    and ps: "pointers sm1 = (if IsLatin ?ch \<or> IsSpace ?ch then pointers sm
                             else advancePointers (dict sm) ?ch (pointers sm @ [zeroPointer]))"
    by blast
  have latin: "IsLatin ?ch \<or> IsSpace ?ch \<longrightarrow>
         pointers sm1 = pointers sm \<and>
         (\<forall>d. scanRune (int i) ?ch (sm\<lparr>dict := d\<rparr>) = Some (sm1\<lparr>dict := d\<rparr>))"
  proof
    assume c: "IsLatin ?ch \<or> IsSpace ?ch"
    have "\<forall>d. scanRune (int i) ?ch (sm\<lparr>dict := d\<rparr>) = Some (sm1\<lparr>dict := d\<rparr>)"
      using scanRune_dict[OF c, where i = "int i" and sm = sm] r by simp
    then show "pointers sm1 = pointers sm \<and>
         (\<forall>d. scanRune (int i) ?ch (sm\<lparr>dict := d\<rparr>) = Some (sm1\<lparr>dict := d\<rparr>))"
      using ps c by simp
  qed
  have other: "\<not> IsLatin ?ch \<and> \<not> IsSpace ?ch \<longrightarrow>
         (\<exists>sma. advanceText (int i) ?ch (beginRune sm) = Some sma \<and>
            (\<forall>p \<in> set (pointers sma). IsFinal p \<longrightarrow>
               (\<exists>w \<in> set ws. follow ?d zeroPointer w = Some p \<and>
                  (\<forall>c \<in> set w. \<not> IsLatin c \<and> \<not> IsSpace c) \<and>
                  last w = ?ch \<and> Offset p = int (length w) \<and>
                  0 \<le> 1 + int i - Offset p)))"
  proof
    assume c: "\<not> IsLatin ?ch \<and> \<not> IsSpace ?ch"
    let ?b = "beginRune sm"
    have invb: "scanInv (length line) i ?b" using inv by (simp add: scanInv_def beginRune_def)
    have nb: "\<not> foundBestEdge ?b" by (simp add: beginRune_def)
    have bp: "dict ?b = ?d" "pointers ?b = pointers sm" using ds by (simp_all add: beginRune_def)
    from advanceText_mid[OF invb assms nb, of ?ch] obtain sma where
      a: "advanceText (int i) ?ch ?b = Some sma" and mid: "midInv (length line) i sma"
      and pa: "pointers sma = advancePointers ?d ?ch (pointers sm @ [zeroPointer])"
      using bp by auto
    have "\<forall>p \<in> set (pointers sma). IsFinal p \<longrightarrow>
               (\<exists>w \<in> set ws. follow ?d zeroPointer w = Some p \<and>
                  (\<forall>c \<in> set w. \<not> IsLatin c \<and> \<not> IsSpace c) \<and>
                  last w = ?ch \<and> Offset p = int (length w) \<and>
                  0 \<le> 1 + int i - Offset p)"
    proof (intro ballI impI)
      fix p assume p: "p \<in> set (pointers sma)" "IsFinal p"
      from advance_follow[OF tr, of p ?ch] p(1) pa obtain cs where
        cs: "\<forall>c \<in> set cs. \<not> IsLatin c \<and> \<not> IsSpace c"
        "follow ?d zeroPointer (cs @ [?ch]) = Some p"
        by auto
      from follow_final_word[OF cs(2) _ p(2)] have
        w: "cs @ [?ch] \<in> set ws" "Offset p = int (length (cs @ [?ch]))"
        by simp_all
      have "Offset p \<le> int i + 1" using mid p(1) by (simp add: midInv_def)
      then show "\<exists>w \<in> set ws. follow ?d zeroPointer w = Some p \<and>
                  (\<forall>c \<in> set w. \<not> IsLatin c \<and> \<not> IsSpace c) \<and>
                  last w = ?ch \<and> Offset p = int (length w) \<and>
                  0 \<le> 1 + int i - Offset p"
        using w cs c by (intro bexI[of _ "cs @ [?ch]"]) simp_all
    qed
    with a show "\<exists>sma. advanceText (int i) ?ch (beginRune sm) = Some sma \<and>
            (\<forall>p \<in> set (pointers sma). IsFinal p \<longrightarrow>
               (\<exists>w \<in> set ws. follow ?d zeroPointer w = Some p \<and>
                  (\<forall>c \<in> set w. \<not> IsLatin c \<and> \<not> IsSpace c) \<and>
                  last w = ?ch \<and> Offset p = int (length w) \<and>
                  0 \<le> 1 + int i - Offset p))"
      by blast
  qed
  show ?thesis
    using s r latin other by blast
qed




lemma lookups_at_text_only_example:
  "(\<exists>sm sm1.
      scanLine 0 (take 1 [3585, 97, 3586])
        (resetSegmenter [3585, 97, 3586] (newSegmenter (MakePrefixTree [[3585, 3586]]))) = Some sm \<and>
      scanRune 1 97 sm = Some sm1 \<and> pointers sm1 = pointers sm \<and>
      scanRune 1 97 (sm\<lparr>dict := Map.empty\<rparr>) = Some (sm1\<lparr>dict := Map.empty\<rparr>)) \<and>
   (\<exists>sm sma p.
      scanLine 0 (take 2 [3585, 97, 3586])
        (resetSegmenter [3585, 97, 3586] (newSegmenter (MakePrefixTree [[3585, 3586]]))) = Some sm \<and>
      advanceText 2 3586 (beginRune sm) = Some sma \<and>
      p \<in> set (pointers sma) \<and> IsFinal p \<and>
      follow (MakePrefixTree [[3585, 3586]]) zeroPointer [3585, 3586] = Some p \<and>
      Offset p = 2)"
proof
  let ?L = "[3585, 97, 3586] :: rune list"
  let ?ws = "[[3585, 3586]] :: rune list list"
  let ?R = "resetSegmenter ?L (newSegmenter (MakePrefixTree ?ws))"
  have h1: "1 < length ?L" by simp
  have c1: "IsLatin (?L ! 1) \<or> IsSpace (?L ! 1)" by (simp add: IsLatin_def)
  from lookups_at_text_only[OF h1, of ?ws] c1 obtain sm sm1 where
    "scanLine 0 (take 1 ?L) ?R = Some sm" "scanRune (int 1) (?L ! 1) sm = Some sm1"
    "pointers sm1 = pointers sm"
    "\<forall>d. scanRune (int 1) (?L ! 1) (sm\<lparr>dict := d\<rparr>) = Some (sm1\<lparr>dict := d\<rparr>)"
    by blast
  then show "\<exists>sm sm1. scanLine 0 (take 1 ?L) ?R = Some sm \<and>
      scanRune 1 97 sm = Some sm1 \<and> pointers sm1 = pointers sm \<and>
      scanRune 1 97 (sm\<lparr>dict := Map.empty\<rparr>) = Some (sm1\<lparr>dict := Map.empty\<rparr>)"
    by (intro exI[of _ sm] exI[of _ sm1]) simp
next
  let ?L = "[3585, 97, 3586] :: rune list"
  let ?ws = "[[3585, 3586]] :: rune list list"
  let ?R = "resetSegmenter ?L (newSegmenter (MakePrefixTree ?ws))"
  have h2: "2 < length ?L" by simp
  have c2: "\<not> IsLatin (?L ! 2) \<and> \<not> IsSpace (?L ! 2)" by (simp add: IsLatin_def IsSpace_def)
  from lookups_at_text_only[OF h2, of ?ws] c2 obtain sm sma where
    s: "scanLine 0 (take 2 ?L) ?R = Some sm"
    and a: "advanceText (int 2) (?L ! 2) (beginRune sm) = Some sma"
    and all: "\<forall>p \<in> set (pointers sma). IsFinal p \<longrightarrow>
               (\<exists>w \<in> set ?ws. follow (MakePrefixTree ?ws) zeroPointer w = Some p \<and>
                  Offset p = int (length w))"
    by blast
  have c: "candidatesAt (MakePrefixTree ?ws) ?L 2 =
      Some [(2, Some \<lparr>S = 1, WordCount = 2, UnkCount = 1\<rparr>)]"
    by code_simp
  have "Some (map (\<lambda>p. (Offset p, edgeFrom (path sma) (1 + int 2 - Offset p)))
                    (filter IsFinal (pointers sma))) =
        Some [(2, Some \<lparr>S = 1, WordCount = 2, UnkCount = 1\<rparr>)]"
    using c unfolding candidatesAt_def by (simp only: s a Option.bind.bind_lunit)
  then have "filter IsFinal (pointers sma) \<noteq> []" by auto
  then obtain p where p: "p \<in> set (pointers sma)" "IsFinal p"
    by (auto simp: filter_empty_conv)
  with all have f: "follow (MakePrefixTree ?ws) zeroPointer [3585, 3586] = Some p" "Offset p = 2"
    by auto
  have a': "advanceText 2 3586 (beginRune sm) = Some sma" using a by simp
  show "\<exists>sm sma p. scanLine 0 (take 2 ?L) ?R = Some sm \<and>
      advanceText 2 3586 (beginRune sm) = Some sma \<and>
      p \<in> set (pointers sma) \<and> IsFinal p \<and>
      follow (MakePrefixTree ?ws) zeroPointer [3585, 3586] = Some p \<and> Offset p = 2"
    using s a' p f by blast
qed

text \<open>
  C10. Trie lookups are performed only at runes that are neither Latin nor space, and
  every token selected through a dictionary edge should consist of such runes only.
  The code breaks the second part. With the dictionary of the one word U+0E01 U+0E02:

  \<^item> on the line U+0E01, \<open>a\<close>, U+0E02 the pointer spawned at position 0 is still in
    \<open>sm.pointers\<close> after the Latin rune at position 1, is final at position 2 with
    \<open>Offset\<close> 2, and its edge, from \<open>1 + i - Offset = 1\<close>, is the cell written at 3:
    the tokens are U+0E01 and \<open>a\<close> U+0E02, the second one selected through the
    dictionary edge, with a Latin letter in it and no unknown added for it;

  \<^item> on the line U+0E01, \<open>a\<close>, \<open>b\<close>, U+0E02 the same pointer gives the edge from 2,
    which cuts the Latin run: the tokens are U+0E01 \<open>a\<close> and \<open>b\<close> U+0E02.

  Without a live pointer the same runes are segmented as the claim says: with the empty
  trie the first line gives U+0E01, \<open>a\<close>, U+0E02 as three tokens.
\<close>

theorem dictionary_edge_covers_latin:
  "candidatesAt (MakePrefixTree [[3585, 3586]]) [3585, 97, 3586] 2 =
     Some [(2, Some \<lparr>S = 1, WordCount = 2, UnkCount = 1\<rparr>)] \<and>
   map_option path (BuildPath [3585, 97, 3586] (newSegmenter (MakePrefixTree [[3585, 3586]]))) =
     Some [\<lparr>S = 0, WordCount = 0, UnkCount = 0\<rparr>, \<lparr>S = 0, WordCount = 1, UnkCount = 1\<rparr>,
           \<lparr>S = 1, WordCount = 2, UnkCount = 1\<rparr>, \<lparr>S = 1, WordCount = 2, UnkCount = 1\<rparr>] \<and>
   segment [3585, 97, 3586] (MakePrefixTree [[3585, 3586]]) = Some [[3585], [97, 3586]] \<and>
   IsLatin 97 \<and>
   candidatesAt (MakePrefixTree [[3585, 3586]]) [3585, 97, 98, 3586] 3 =
     Some [(2, Some \<lparr>S = 2, WordCount = 2, UnkCount = 1\<rparr>)] \<and>
   segment [3585, 97, 98, 3586] (MakePrefixTree [[3585, 3586]]) =
     Some [[3585, 97], [98, 3586]] \<and>
   IsLatin 98 \<and>
   segment [3585, 97, 3586] (MakePrefixTree []) = Some [[3585], [97], [3586]]"
  by code_simp

end
